theory Spec2Isabelle
  imports Main
begin

section \<open>Data model\<close>

text \<open>
  The enumerations of \<^verbatim>\<open>CipherMode.hpp\<close> and \<^verbatim>\<open>CipherType.hpp\<close>, as the drivers and the
  unit tests use them (\<^verbatim>\<open>CipherMode::Encrypt\<close>, \<^verbatim>\<open>CipherType::Caesar\<close>, ...).
\<close>

datatype CipherMode = Encrypt | Decrypt

datatype CipherType = Caesar | Playfair | Vigenere

text \<open>
  Failures are values. \<open>InvalidKey\<close> is the exception class of \<^verbatim>\<open>Exceptions.hpp\<close>;
  \<open>OutOfRange\<close> is \<^verbatim>\<open>std::out_of_range\<close> as thrown by \<^verbatim>\<open>std::string::substr\<close>;
  \<open>DivisionByZero\<close> stands for an integer division whose divisor is zero
  (undefined behaviour in C++).
\<close>

datatype error = InvalidKey | OutOfRange | DivisionByZero

text \<open>
  The fields of \<^verbatim>\<open>ProgramSettings\<close> that the drivers read after the input text has been
  collected.
\<close>

record ProgramSettings =
  outputFile :: string
  cipherKey :: string
  cipherMode :: CipherMode
  cipherType :: CipherType

text \<open>
  What a run does that can be observed, in program order: text written to the standard
  streams or to the output file, a synchronous \<^verbatim>\<open>applyCipher\<close> call on the main thread
  (\<open>Call\<close>, with its argument), the launch of a worker with \<^verbatim>\<open>std::async\<close> (\<open>Async\<close>, with the
  chunk handed to it; the k-th \<open>Async\<close> event creates future number k), a timed
  \<^verbatim>\<open>wait_for\<close> on a future and a blocking \<^verbatim>\<open>get\<close> on a future.
\<close>

datatype event =
    Stdout string
  | Stderr string
  | FileOut string
  | Call string
  | Async string
  | WaitFor nat
  | Get nat

datatype future_status = ready_status | timeout_status | deferred_status

text \<open>
  How \<^verbatim>\<open>main\<close> ends: it returns an exit code, or an exception leaves it uncaught.
  A run that blocks for ever has no outcome (\<open>None\<close> below).
\<close>

datatype outcome = Exit int "event list" | Terminate error "event list"

text \<open>
  The scheduler's side of the futures. \<open>pending\<close> lists, in the order in which they will
  finish, the worker tasks whose completion the main thread has not yet been able to
  observe; \<open>ready\<close> holds the futures known to be complete.
\<close>

record wstate =
  ready :: "nat list"
  pending :: "nat list"

section \<open>Library behaviour the drivers rely on\<close>

text \<open>\<^verbatim>\<open>const size_t threadNum{12};\<close>\<close>

definition threadNum :: nat where
  "threadNum = 12"

definition endl :: string where
  "endl = [CHR 0x0A]"

text \<open>\<^verbatim>\<open>operator<<\<close> on a \<^verbatim>\<open>size_t\<close>: the decimal digits.\<close>

fun to_string :: "nat \<Rightarrow> string" where
  "to_string n =
     (if n < 10 then [char_of (48 + n)]
      else to_string (n div 10) @ [char_of (48 + n mod 10)])"

declare to_string.simps [simp del]

text \<open>
  \<^verbatim>\<open>std::string::substr(pos, n)\<close>: throws \<^verbatim>\<open>std::out_of_range\<close> when \<open>pos\<close> is greater than
  the size; otherwise the characters from \<open>pos\<close>, at most \<open>n\<close> of them (\<open>pos\<close> equal to the
  size gives the empty string).
\<close>

definition substr :: "string \<Rightarrow> nat \<Rightarrow> nat \<Rightarrow> error + string" where
  "substr s pos n = (if length s < pos then Inl OutOfRange else Inr (take n (drop pos s)))"

text \<open>
  \<^verbatim>\<open>future.get()\<close> blocks until the worker of that future has finished: the main thread
  lets completions happen, in the scheduler's order, until the one it waits for is among
  them. When that worker never finishes the call never returns (\<open>None\<close>).
\<close>

primrec await :: "nat \<Rightarrow> nat list \<Rightarrow> nat list \<Rightarrow> wstate option" where
  "await i rdy [] =
     (if i \<in> set rdy then Some \<lparr>ready = rdy, pending = []\<rparr> else None)"
| "await i rdy (j # js) =
     (if i \<in> set rdy then Some \<lparr>ready = rdy, pending = j # js\<rparr>
      else await i (j # rdy) js)"

definition future_get :: "nat \<Rightarrow> wstate \<Rightarrow> wstate option" where
  "future_get i w = await i (ready w) (pending w)"

text \<open>
  \<^verbatim>\<open>future.wait_for(d)\<close>: ready at once when the worker has finished; otherwise time passes,
  during which the next completion (if any is left) happens, and the call reports whether
  that made this future ready. Workers are launched with \<^verbatim>\<open>std::launch::async\<close>, so the
  status is never \<^verbatim>\<open>deferred\<close>.
\<close>

definition wait_for :: "nat \<Rightarrow> wstate \<Rightarrow> future_status \<times> wstate" where
  "wait_for i w =
     (if i \<in> set (ready w) then (ready_status, w)
      else
        (case pending w of
           [] \<Rightarrow> (timeout_status, w)
         | j # js \<Rightarrow>
             (if j = i then ready_status else timeout_status,
              \<lparr>ready = j # ready w, pending = js\<rparr>)))"

section \<open>Splitting the input text\<close>

text \<open>
  The loop of \<^verbatim>\<open>mpags-cipher.cpp\<close> lines 142--159, which the later driver keeps for the
  Caesar cipher (lines 154--171): \<open>todo\<close> counts the iterations still to run, the other
  arguments are the loop's variables. The result lists the chunks in the order in which
  they are handed to \<^verbatim>\<open>std::async\<close>. Neither \<^verbatim>\<open>substr\<close> call is guarded, so an exception of
  either ends the run.
\<close>

fun uniform_loop :: "string \<Rightarrow> nat \<Rightarrow> nat \<Rightarrow> nat \<Rightarrow> nat \<Rightarrow> error + string list" where
  "uniform_loop inputText chunkLength 0 inputTextChunkStart endTextLen = Inr []"
| "uniform_loop inputText chunkLength (Suc todo) inputTextChunkStart endTextLen =
     (case substr inputText inputTextChunkStart chunkLength of
        Inl e \<Rightarrow> Inl e
      | Inr inputTextChunk \<Rightarrow>
          (if 0 < endTextLen then
             (case substr inputText (inputTextChunkStart + chunkLength) 1 of
                Inl e \<Rightarrow> Inl e
              | Inr extra \<Rightarrow>
                  (case uniform_loop inputText chunkLength todo
                          (inputTextChunkStart + chunkLength + 1) (endTextLen - 1) of
                     Inl e \<Rightarrow> Inl e
                   | Inr futures \<Rightarrow> Inr ((inputTextChunk @ extra) # futures)))
           else
             (case uniform_loop inputText chunkLength todo
                     (inputTextChunkStart + chunkLength) endTextLen of
                Inl e \<Rightarrow> Inl e
              | Inr futures \<Rightarrow> Inr (inputTextChunk # futures))))"

text \<open>
  \<^verbatim>\<open>chunkLength{inputText.length()/threadNum}\<close> and
  \<^verbatim>\<open>endTextLen{inputText.length() - threadNum*chunkLength}\<close>, then the loop. Lengths are
  natural numbers here: \<open>threadNum * chunkLength\<close> never exceeds the length of the text,
  so the \<^verbatim>\<open>size_t\<close> arithmetic does not wrap.
\<close>

definition uniform_chunks :: "nat \<Rightarrow> string \<Rightarrow> error + string list" where
  "uniform_chunks n inputText =
     (if n = 0 then Inl DivisionByZero
      else
        (let chunkLength = length inputText div n;
             endTextLen = length inputText - n * chunkLength
         in uniform_loop inputText chunkLength n 0 endTextLen))"

text \<open>
  The Vigenere loop of the later driver (lines 183--201). Each iteration prints the
  counter, takes \<^verbatim>\<open>inputText.substr(threadCount*chunkLength, chunkLength)\<close> inside a
  \<^verbatim>\<open>try\<close> whose handler for \<^verbatim>\<open>std::out_of_range\<close> leaves the loop, prints the chunk and
  launches the worker. Any other exception would pass through the handler.
\<close>

fun vigenere_loop :: "string \<Rightarrow> nat \<Rightarrow> nat \<Rightarrow> nat \<Rightarrow> error + (string list \<times> event list)" where
  "vigenere_loop inputText chunkLength 0 threadCount = Inr ([], [])"
| "vigenere_loop inputText chunkLength (Suc todo) threadCount =
     (case substr inputText (threadCount * chunkLength) chunkLength of
        Inl OutOfRange \<Rightarrow> Inr ([], [Stdout (to_string threadCount @ endl)])
      | Inl e \<Rightarrow> Inl e
      | Inr inputTextChunk \<Rightarrow>
          (case vigenere_loop inputText chunkLength todo (Suc threadCount) of
             Inl e \<Rightarrow> Inl e
           | Inr (futures, out) \<Rightarrow>
               Inr (inputTextChunk # futures,
                    Stdout (to_string threadCount @ endl) #
                    Stdout (inputTextChunk @ endl) #
                    Async inputTextChunk # out)))"

text \<open>
  \<^verbatim>\<open>chunkLength = (((inputText.length()/settings.cipherKey.length())/threadNum) + 1)
  *settings.cipherKey.length()\<close>. The divisor is the length of the raw key string. The
  product is at most \<open>length inputText div n + length key\<close> and the largest offset asked of
  \<^verbatim>\<open>substr\<close> is below \<open>length inputText + n * length key\<close>, far inside \<^verbatim>\<open>size_t\<close> for strings
  that fit in memory, so natural numbers model the arithmetic.
\<close>

definition vigenere_chunkLength :: "nat \<Rightarrow> string \<Rightarrow> string \<Rightarrow> nat" where
  "vigenere_chunkLength n key inputText =
     ((length inputText div length key) div n + 1) * length key"

definition vigenere_chunks :: "nat \<Rightarrow> string \<Rightarrow> string \<Rightarrow> error + (string list \<times> event list)" where
  "vigenere_chunks n key inputText =
     (if length key = 0 \<or> n = 0 then Inl DivisionByZero
      else vigenere_loop inputText (vigenere_chunkLength n key inputText) n 0)"

text \<open>The offsets in the original text at which consecutive chunks start.\<close>

fun chunk_offsets :: "nat \<Rightarrow> string list \<Rightarrow> nat list" where
  "chunk_offsets start [] = []"
| "chunk_offsets start (c # cs) = start # chunk_offsets (start + length c) cs"

section \<open>Waiting for the workers and reassembling\<close>

text \<open>
  The reassembly loop of both drivers: \<^verbatim>\<open>outputText += future.get()\<close> for the futures in
  the order of the vector, which is the order of submission. The first argument lists
  what the workers return, \<open>i\<close> is the number of the next future.
\<close>

fun get_loop :: "string list \<Rightarrow> nat \<Rightarrow> wstate \<Rightarrow> string \<Rightarrow> event list \<Rightarrow> (string \<times> event list) option" where
  "get_loop [] i w outputText tr = Some (outputText, tr)"
| "get_loop (r # rs) i w outputText tr =
     (case future_get i w of
        None \<Rightarrow> None
      | Some w' \<Rightarrow> get_loop rs (Suc i) w' (outputText @ r) (tr @ [Get i]))"

text \<open>
  One pass of the polling loop of the later driver (lines 208--214): a timed wait on every
  future; a timeout clears the flag.
\<close>

fun poll_pass_new :: "nat list \<Rightarrow> bool \<Rightarrow> wstate \<Rightarrow> event list \<Rightarrow> bool \<times> wstate \<times> event list" where
  "poll_pass_new [] allFuturesReady w tr = (allFuturesReady, w, tr)"
| "poll_pass_new (i # is) allFuturesReady w tr =
     (case wait_for i w of
        (status, w') \<Rightarrow>
          poll_pass_new is (if status = timeout_status then False else allFuturesReady) w'
            (tr @ [WaitFor i]))"

text \<open>
  \<^verbatim>\<open>while (!allFuturesReady) { allFuturesReady = true; for (...) ... }\<close>. The loop need not
  end in general (a worker may never finish), so not returning is the value \<open>None\<close>.
\<close>

partial_function (option) poll_new :: "nat \<Rightarrow> bool \<Rightarrow> wstate \<Rightarrow> event list \<Rightarrow> (wstate \<times> event list) option" where
  "poll_new n allFuturesReady w tr =
     (if \<not> allFuturesReady then
        (case poll_pass_new [0..<n] True w tr of
           (a, w', tr') \<Rightarrow> poll_new n a w' tr')
      else Some (w, tr))"

declare poll_new.simps [code]

text \<open>
  One pass of the polling loop of \<^verbatim>\<open>mpags-cipher.cpp\<close> (lines 165--175): the flag is an
  \<^verbatim>\<open>int\<close>, multiplied by 0 on a timeout and by 1 when the future is ready, with a message
  for each.
\<close>

fun poll_pass_old :: "nat list \<Rightarrow> int \<Rightarrow> wstate \<Rightarrow> event list \<Rightarrow> int \<times> wstate \<times> event list" where
  "poll_pass_old [] allFuturesReady w tr = (allFuturesReady, w, tr)"
| "poll_pass_old (i # is) allFuturesReady w tr =
     (case wait_for i w of
        (status, w') \<Rightarrow>
          (if status = timeout_status then
             poll_pass_old is (allFuturesReady * 0) w'
               (tr @ [WaitFor i, Stdout (''[main] Waiting...'' @ endl)])
           else if status = ready_status then
             poll_pass_old is (allFuturesReady * 1) w'
               (tr @ [WaitFor i, Stdout (''[main] Thread '' @ to_string i @ '' ready!'' @ endl)])
           else poll_pass_old is allFuturesReady w' (tr @ [WaitFor i])))"

partial_function (option) poll_old :: "nat \<Rightarrow> int \<Rightarrow> wstate \<Rightarrow> event list \<Rightarrow> (wstate \<times> event list) option" where
  "poll_old n allFuturesReady w tr =
     (if allFuturesReady = 0 then
        (case poll_pass_old [0..<n] 1 w tr of
           (a, w', tr') \<Rightarrow> poll_old n a w' tr')
      else Some (w, tr))"

declare poll_old.simps [code]

text \<open>
  The last step of both drivers: the text goes to the output file when one is named (the
  run ends with exit code 1 when the stream cannot be opened, \<open>streamGood\<close> being what
  \<^verbatim>\<open>outputStream.good()\<close> answers), otherwise to the standard output.
\<close>

definition write_output :: "ProgramSettings \<Rightarrow> bool \<Rightarrow> string \<Rightarrow> event list \<Rightarrow> outcome" where
  "write_output settings streamGood outputText tr =
     (if outputFile settings \<noteq> [] then
        (if \<not> streamGood then
           Exit 1 (tr @ [Stderr (''[error] failed to create ostream on file '' @ [CHR 0x27] @
                                 outputFile settings @ [CHR 0x27] @ endl)])
         else Exit 0 (tr @ [FileOut (outputText @ endl)]))
      else Exit 0 (tr @ [Stdout (outputText @ endl)]))"

section \<open>The two drivers\<close>

text \<open>
  Both take the cipher object as the function \<open>applyCipher\<close> that its virtual method
  computes, the settings, the sanitised input text and the order \<open>sched\<close> in which the
  workers will finish. A worker runs the lambda \<^verbatim>\<open>doCipher\<close> on its chunk, so future
  number k eventually holds \<open>applyCipher\<close> of chunk k in the mode of the settings.
\<close>

text \<open>
  The later driver, lines 140--202: which chunks are handed to \<^verbatim>\<open>std::async\<close>, and what the
  loops print meanwhile.
\<close>

definition submit_new :: "ProgramSettings \<Rightarrow> string \<Rightarrow> error + (string list \<times> event list)" where
  "submit_new settings inputText =
     (if cipherType settings = Caesar then
        (case uniform_chunks threadNum inputText of
           Inl e \<Rightarrow> Inl e
         | Inr chunks \<Rightarrow> Inr (chunks, map Async chunks))
      else if cipherType settings = Vigenere then
        vigenere_chunks threadNum (cipherKey settings) inputText
      else Inr ([], []))"

definition chunks_new :: "ProgramSettings \<Rightarrow> string \<Rightarrow> string list" where
  "chunks_new settings inputText =
     (case submit_new settings inputText of Inl e \<Rightarrow> [] | Inr (chunks, tr) \<Rightarrow> chunks)"

text \<open>The later driver, lines 120--221: the value of \<^verbatim>\<open>outputText\<close> and the events so far.\<close>

definition dispatch_new ::
  "(string \<Rightarrow> CipherMode \<Rightarrow> string) \<Rightarrow> ProgramSettings \<Rightarrow> string \<Rightarrow> nat list \<Rightarrow>
   (error + string \<times> event list) option" where
  "dispatch_new applyCipher settings inputText sched =
     (if cipherType settings = Playfair then
        Some (Inr (applyCipher inputText (cipherMode settings), [Call inputText]))
      else
        (case submit_new settings inputText of
           Inl e \<Rightarrow> Some (Inl e)
         | Inr (chunks, tr) \<Rightarrow>
             (case poll_new (length chunks) True \<lparr>ready = [], pending = sched\<rparr> tr of
                None \<Rightarrow> None
              | Some (w, tr1) \<Rightarrow>
                  (case get_loop (map (\<lambda>input. applyCipher input (cipherMode settings)) chunks)
                          0 w [] tr1 of
                     None \<Rightarrow> None
                   | Some (outputText, tr2) \<Rightarrow> Some (Inr (outputText, tr2))))))"

definition main_new ::
  "(string \<Rightarrow> CipherMode \<Rightarrow> string) \<Rightarrow> ProgramSettings \<Rightarrow> string \<Rightarrow> nat list \<Rightarrow> bool \<Rightarrow>
   outcome option" where
  "main_new applyCipher settings inputText sched streamGood =
     (case dispatch_new applyCipher settings inputText sched of
        None \<Rightarrow> None
      | Some (Inl e) \<Rightarrow> Some (Terminate e [])
      | Some (Inr (outputText, tr)) \<Rightarrow> Some (write_output settings streamGood outputText tr))"

text \<open>
  \<^verbatim>\<open>mpags-cipher.cpp\<close>, lines 120--182: the same loop splits the text for every cipher
  type.
\<close>

definition dispatch_old ::
  "(string \<Rightarrow> CipherMode \<Rightarrow> string) \<Rightarrow> ProgramSettings \<Rightarrow> string \<Rightarrow> nat list \<Rightarrow>
   (error + string \<times> event list) option" where
  "dispatch_old applyCipher settings inputText sched =
     (case uniform_chunks threadNum inputText of
        Inl e \<Rightarrow> Some (Inl e)
      | Inr chunks \<Rightarrow>
          (case poll_old (length chunks) 1 \<lparr>ready = [], pending = sched\<rparr> (map Async chunks) of
             None \<Rightarrow> None
           | Some (w, tr1) \<Rightarrow>
               (case get_loop (map (\<lambda>input. applyCipher input (cipherMode settings)) chunks)
                       0 w [] tr1 of
                  None \<Rightarrow> None
                | Some (outputText, tr2) \<Rightarrow> Some (Inr (outputText, tr2)))))"

definition main_old ::
  "(string \<Rightarrow> CipherMode \<Rightarrow> string) \<Rightarrow> ProgramSettings \<Rightarrow> string \<Rightarrow> nat list \<Rightarrow> bool \<Rightarrow>
   outcome option" where
  "main_old applyCipher settings inputText sched streamGood =
     (case dispatch_old applyCipher settings inputText sched of
        None \<Rightarrow> None
      | Some (Inl e) \<Rightarrow> Some (Terminate e [])
      | Some (Inr (outputText, tr)) \<Rightarrow> Some (write_output settings streamGood outputText tr))"

text \<open>Every one of the first \<open>n\<close> workers finishes at some point of the schedule.\<close>

definition all_finish :: "nat \<Rightarrow> nat list \<Rightarrow> bool" where
  "all_finish n sched = list_all (\<lambda>i. i \<in> set sched) [0..<n]"

section \<open>The cipher classes\<close>

text \<open>
  The drivers and the unit tests call \<^verbatim>\<open>cipherFactory\<close> and \<^verbatim>\<open>Cipher::applyCipher\<close>; the
  implementation files of the factory and of the three cipher classes are not part of the
  sources embedded here. Their behaviour is modelled from the specification, sections 3,
  4.1--4.4 and 7, and checked against the expectations of the unit tests.
\<close>

text \<open>
  Modelled from the spec: the cipher instance returned by \<^verbatim>\<open>cipherFactory\<close>, which owns its
  validated, normalised key: the shift reduced modulo 26, or the keyword in upper case.
\<close>

datatype Cipher = CaesarCipher nat | PlayfairCipher string | VigenereCipher string

text \<open>Modelled from the spec: an upper-case letter A to Z (\<^verbatim>\<open><cctype>\<close> is absent).\<close>

definition is_upper :: "char \<Rightarrow> bool" where
  "is_upper c = (65 \<le> (of_char c :: nat) \<and> (of_char c :: nat) \<le> 90)"

text \<open>Modelled from the spec: a lower-case letter (\<^verbatim>\<open><cctype>\<close> is absent).\<close>

definition is_lower :: "char \<Rightarrow> bool" where
  "is_lower c = (97 \<le> (of_char c :: nat) \<and> (of_char c :: nat) \<le> 122)"

text \<open>Modelled from the spec: a decimal digit (\<^verbatim>\<open><cctype>\<close> is absent).\<close>

definition is_digit :: "char \<Rightarrow> bool" where
  "is_digit c = (48 \<le> (of_char c :: nat) \<and> (of_char c :: nat) \<le> 57)"

text \<open>Modelled from the spec: a letter, for the ``letters only'' rule of the keywords.\<close>

definition is_alpha :: "char \<Rightarrow> bool" where
  "is_alpha c = (is_upper c \<or> is_lower c)"

text \<open>
  Modelled from the spec: the normalisation of a keyword to upper case, which the shift
  \<open>keyword[i] - 'A'\<close> of section 4.3 presupposes (the constructors are absent).
\<close>

definition to_upper :: "char \<Rightarrow> char" where
  "to_upper c = (if is_lower c then char_of ((of_char c :: nat) - 32) else c)"

text \<open>
  Modelled from the spec: the value of a shift key, ``a non-negative base-10 integer''
  (section 4.1); the cipher's constructor is absent.
\<close>

definition parse_decimal :: "string \<Rightarrow> nat" where
  "parse_decimal s = foldl (\<lambda>n c. 10 * n + ((of_char c :: nat) - 48)) 0 s"

text \<open>
  Modelled from the spec: \<^verbatim>\<open>cipherFactory\<close> (section 4.4) with the key rules of sections
  4.1--4.3. A shift key must be a non-empty string of decimal digits (the empty string does
  not ``represent a non-negative base-10 integer'', so it fails like any other key that is
  not a number) and is reduced modulo 26; a keyword must be non-empty and consist of letters only (the rule of sections 4.2
  and 4.3; the ``two distinct letters'' of section 3 is not among the validation rules).
  A failure is \<open>InvalidKey\<close> and no cipher is returned.
\<close>

definition cipherFactory :: "CipherType \<Rightarrow> string \<Rightarrow> error + Cipher" where
  "cipherFactory kind rawKey =
     (case kind of
        Caesar \<Rightarrow>
          (if rawKey \<noteq> [] \<and> list_all is_digit rawKey
           then Inr (CaesarCipher (parse_decimal rawKey mod 26)) else Inl InvalidKey)
      | Playfair \<Rightarrow>
          (if rawKey \<noteq> [] \<and> list_all is_alpha rawKey
           then Inr (PlayfairCipher (map to_upper rawKey)) else Inl InvalidKey)
      | Vigenere \<Rightarrow>
          (if rawKey \<noteq> [] \<and> list_all is_alpha rawKey
           then Inr (VigenereCipher (map to_upper rawKey)) else Inl InvalidKey))"

text \<open>
  Modelled from the spec: the per-letter arithmetic of the shift cipher (section 4.1),
  \<open>(c - 'A' + s) mod 26 + 'A'\<close> to encrypt and \<open>(c - 'A' - s) mod 26 + 'A'\<close> to decrypt;
  any other character passes unchanged. \<^verbatim>\<open>CaesarCipher::applyCipher\<close> is absent.
\<close>

definition shift_char :: "nat \<Rightarrow> CipherMode \<Rightarrow> char \<Rightarrow> char" where
  "shift_char s mode c =
     (if is_upper c then
        (case mode of
           Encrypt \<Rightarrow> char_of (nat ((int (of_char c) - 65 + int s) mod 26 + 65))
         | Decrypt \<Rightarrow> char_of (nat ((int (of_char c) - 65 - int s) mod 26 + 65)))
      else c)"

text \<open>
  Modelled from the spec: the polyalphabetic cipher (section 4.3). The letter at position
  \<open>i\<close> of the text handed to \<^verbatim>\<open>applyCipher\<close> is shifted by
  \<open>keyword[i mod keyLen] - 'A'\<close>. \<^verbatim>\<open>VigenereCipher::applyCipher\<close> is absent.
\<close>

fun vigenere_from :: "string \<Rightarrow> CipherMode \<Rightarrow> nat \<Rightarrow> string \<Rightarrow> string" where
  "vigenere_from key mode i [] = []"
| "vigenere_from key mode i (c # cs) =
     shift_char ((of_char (key ! (i mod length key)) :: nat) - 65) mode c #
     vigenere_from key mode (Suc i) cs"

text \<open>
  Modelled from the spec: the alphabet of the 5 by 5 key square of the digraph cipher
  (section 4.2), which has no J. The square holds the letters of the keyword without
  repetitions, then the remaining letters of this alphabet in order. \<^verbatim>\<open>PlayfairCipher\<close> is
  absent.
\<close>

definition alphabet25 :: string where
  "alphabet25 = ''ABCDEFGHIKLMNOPQRSTUVWXYZ''"

text \<open>Modelled from the spec: J is merged into I (section 4.2).\<close>

definition merge_J :: "char \<Rightarrow> char" where
  "merge_J c = (if c = CHR ''J'' then CHR ''I'' else c)"

text \<open>
  Modelled from the spec: removal of repeated letters, each letter staying where it occurs
  first.
\<close>

definition dedup :: "'a list \<Rightarrow> 'a list" where
  "dedup xs = rev (remdups (rev xs))"

text \<open>
  Modelled from the spec: the square as the list of its 25 cells, row after row, for a
  keyword in upper case.
\<close>

definition key_square :: "string \<Rightarrow> string" where
  "key_square key = dedup (map merge_J key @ alphabet25)"

text \<open>Modelled from the spec: the position of a letter in the square.\<close>

fun index_of :: "'a \<Rightarrow> 'a list \<Rightarrow> nat" where
  "index_of x [] = 0"
| "index_of x (y # ys) = (if x = y then 0 else Suc (index_of x ys))"

text \<open>
  Modelled from the spec: one step along a row or a column of the square, wrapping: to the
  right or down to encrypt, to the left or up to decrypt (section 4.2).
\<close>

definition step5 :: "CipherMode \<Rightarrow> nat \<Rightarrow> nat" where
  "step5 mode k = (case mode of Encrypt \<Rightarrow> (k + 1) mod 5 | Decrypt \<Rightarrow> (k + 4) mod 5)"

text \<open>
  Modelled from the spec: the three rules of section 4.2 on the positions of the two
  letters in the square, read row by row (position \<open>p\<close> is in row \<open>p div 5\<close> and column
  \<open>p mod 5\<close>). Same row: the letter to the right to encrypt, to the left to decrypt,
  wrapping; same column: the letter below, respectively above; otherwise each letter
  moves within its own row to the column of the other.
\<close>

definition square_rule :: "CipherMode \<Rightarrow> nat \<Rightarrow> nat \<Rightarrow> nat \<times> nat" where
  "square_rule mode p q =
     (let rp = p div 5; cp = p mod 5; rq = q div 5; cq = q mod 5
      in if rp = rq then (5 * rp + step5 mode cp, 5 * rq + step5 mode cq)
         else if cp = cq then (5 * step5 mode rp + cp, 5 * step5 mode rq + cq)
         else (5 * rp + cq, 5 * rq + cp))"

text \<open>
  Modelled from the spec: one digraph through the square. A pair with a character that is
  not in the square is left as it is (section 7: stray characters pass unchanged).
\<close>

definition digraph_rule :: "string \<Rightarrow> CipherMode \<Rightarrow> char \<Rightarrow> char \<Rightarrow> char \<times> char" where
  "digraph_rule sq mode a b =
     (if a \<notin> set sq \<or> b \<notin> set sq then (a, b)
      else
        (case square_rule mode (index_of a sq) (index_of b sq) of
           (p, q) \<Rightarrow> (sq ! p, sq ! q)))"

text \<open>
  Modelled from the spec: the pairing of section 4.2. A pair of identical letters gets a
  filler between them and pairing resumes at the second letter. The filler is X; the
  filler after a doubled X is the argument \<open>fx\<close>, because the specification's prose names
  Z for it while the expected texts of the repository's unit test (the decrypted text
  \<^verbatim>\<open>...COMPLEXQXENO...\<close>) are met with Q only. The cipher below uses Q.
\<close>

fun break_doubles :: "char \<Rightarrow> string \<Rightarrow> string" where
  "break_doubles fx (a # b # rest) =
     (if a = b then a # (if a = CHR ''X'' then fx else CHR ''X'') # break_doubles fx (b # rest)
      else a # b # break_doubles fx rest)"
| "break_doubles fx [a] = [a]"
| "break_doubles fx [] = []"

text \<open>Modelled from the spec: a text of odd length gets the trailing filler Z (section 4.2).\<close>

definition pad_odd :: "string \<Rightarrow> string" where
  "pad_odd xs = (if odd (length xs) then xs @ ''Z'' else xs)"

text \<open>
  Modelled from the spec: the canonical form of a text, which is what the digraph cipher
  really transforms: J merged into I, doubled pairs broken, odd length padded.
\<close>

definition playfair_prepare :: "char \<Rightarrow> string \<Rightarrow> string" where
  "playfair_prepare fx text = pad_odd (break_doubles fx (map merge_J text))"

text \<open>
  Modelled from the spec: the text is processed pair by pair (section 4.2); \<open>f\<close> is the
  rule applied to each pair.
\<close>

fun digraphs :: "(char \<Rightarrow> char \<Rightarrow> char \<times> char) \<Rightarrow> string \<Rightarrow> string" where
  "digraphs f (a # b # rest) = fst (f a b) # snd (f a b) # digraphs f rest"
| "digraphs f [a] = [a]"
| "digraphs f [] = []"

text \<open>Modelled from the spec: the digraph cipher of section 4.2, in both modes.\<close>

definition playfair_apply :: "char \<Rightarrow> string \<Rightarrow> string \<Rightarrow> CipherMode \<Rightarrow> string" where
  "playfair_apply fx key text mode =
     digraphs (digraph_rule (key_square key) mode) (playfair_prepare fx text)"

text \<open>
  Modelled from the spec: \<^verbatim>\<open>Cipher::applyCipher(text, mode)\<close>, the one operation of a cipher
  instance; it keeps no state between calls.
\<close>

fun applyCipher :: "Cipher \<Rightarrow> string \<Rightarrow> CipherMode \<Rightarrow> string" where
  "applyCipher (CaesarCipher s) text mode = map (shift_char s mode) text"
| "applyCipher (PlayfairCipher key) text mode = playfair_apply (CHR ''Q'') key text mode"
| "applyCipher (VigenereCipher key) text mode = vigenere_from key mode 0 text"

text \<open>The helper of the unit tests, \<^verbatim>\<open>testCipher\<close> (\<^verbatim>\<open>mpags-cipher.cpp\<close> lines 219--223).\<close>

definition testCipher :: "Cipher \<Rightarrow> CipherMode \<Rightarrow> string \<Rightarrow> string \<Rightarrow> bool" where
  "testCipher cipher mode inputText outputText = (applyCipher cipher inputText mode = outputText)"


text \<open>All chunks but the last have a length that is a multiple of \<open>k\<close>.\<close>

definition key_aligned :: "nat \<Rightarrow> string list \<Rightarrow> bool" where
  "key_aligned k chunks = (\<forall>c \<in> set (butlast chunks). k dvd length c)"

text \<open>The chunks handed to \<^verbatim>\<open>std::async\<close> in a sequence of events, in order.\<close>

fun launched :: "event list \<Rightarrow> string list" where
  "launched [] = []"
| "launched (Async c # es) = c # launched es"
| "launched (e # es) = launched es"

section \<open>Properties of the splitting loops\<close>

lemma uniform_loop_inv:
  "start + todo * cl + e = length text \<Longrightarrow> e \<le> todo \<Longrightarrow>
   \<exists>cs. uniform_loop text cl todo start e = Inr cs \<and> length cs = todo \<and>
        concat cs = drop start text \<and>
        (\<forall>i<todo. length (cs ! i) = cl + (if i < e then 1 else 0))"
proof (induction todo arbitrary: start e)
  case 0
  then show ?case by simp
next
  case (Suc todo)
  show ?case
  proof (cases "0 < e")
    case True
    have a: "(start + cl + 1) + todo * cl + (e - 1) = length text" "e - 1 \<le> todo"
      using Suc.prems True by simp_all
    from Suc.IH[OF a] obtain cs where cs:
      "uniform_loop text cl todo (start + cl + 1) (e - 1) = Inr cs" "length cs = todo"
      "concat cs = drop (start + cl + 1) text"
      "\<forall>i<todo. length (cs ! i) = cl + (if i < e - 1 then 1 else 0)" by blast
    have len: "start + cl + 1 \<le> length text" using Suc.prems True by simp
    have s1: "substr text start cl = Inr (take cl (drop start text))"
      using len by (simp add: substr_def)
    have s2: "substr text (start + cl) 1 = Inr (take 1 (drop (start + cl) text))"
      using len by (simp add: substr_def)
    let ?c = "take cl (drop start text) @ take 1 (drop (start + cl) text)"
    have r: "uniform_loop text cl (Suc todo) start e = Inr (?c # cs)"
      using True s1 s2 cs(1) by simp
    have "take (cl + 1) (drop start text) =
            take cl (drop start text) @ take 1 (drop cl (drop start text))"
      by (rule take_add)
    then have c1: "?c = take (cl + 1) (drop start text)"
      by (simp add: add.commute)
    have cc: "concat (?c # cs) = drop start text"
      unfolding concat.simps c1 cs(3)
      by (metis add.assoc add.commute append_take_drop_id drop_drop)
    have lc: "length ?c = cl + 1" using len by simp
    have "\<forall>i<Suc todo. length ((?c # cs) ! i) = cl + (if i < e then 1 else 0)"
    proof (intro allI impI)
      fix i assume "i < Suc todo"
      show "length ((?c # cs) ! i) = cl + (if i < e then 1 else 0)"
      proof (cases i)
        case 0 then show ?thesis using lc True by simp
      next
        case (Suc j)
        then have "j < todo" using \<open>i < Suc todo\<close> by simp
        then show ?thesis using cs(4) Suc True by auto
      qed
    qed
    then show ?thesis using r cc cs(2) by simp
  next
    case False
    then have e0: "e = 0" by simp
    have a: "(start + cl) + todo * cl + e = length text" "e \<le> todo"
      using Suc.prems e0 by simp_all
    from Suc.IH[OF a] obtain cs where cs:
      "uniform_loop text cl todo (start + cl) e = Inr cs" "length cs = todo"
      "concat cs = drop (start + cl) text"
      "\<forall>i<todo. length (cs ! i) = cl + (if i < e then 1 else 0)" by blast
    have len: "start + cl \<le> length text" using Suc.prems e0 by simp
    have s1: "substr text start cl = Inr (take cl (drop start text))"
      using len by (simp add: substr_def)
    let ?c = "take cl (drop start text)"
    have r: "uniform_loop text cl (Suc todo) start e = Inr (?c # cs)"
      using e0 s1 cs(1) by simp
    have cc: "concat (?c # cs) = drop start text"
      unfolding concat.simps cs(3)
      by (metis add.commute append_take_drop_id drop_drop)
    have lc: "length ?c = cl" using len by simp
    have "\<forall>i<Suc todo. length ((?c # cs) ! i) = cl + (if i < e then 1 else 0)"
    proof (intro allI impI)
      fix i assume "i < Suc todo"
      show "length ((?c # cs) ! i) = cl + (if i < e then 1 else 0)"
      proof (cases i)
        case 0 then show ?thesis using lc e0 by simp
      next
        case (Suc j)
        then have "j < todo" using \<open>i < Suc todo\<close> by simp
        then show ?thesis using cs(4) Suc e0 by auto
      qed
    qed
    then show ?thesis using r cc cs(2) by simp
  qed
qed

lemma uniform_chunks_spec:
  assumes "0 < n"
  shows "\<exists>cs. uniform_chunks n text = Inr cs \<and> length cs = n \<and> concat cs = text \<and>
     (\<forall>i<n. length (cs ! i) = length text div n + (if i < length text mod n then 1 else 0))"
proof -
  let ?cl = "length text div n"
  let ?e = "length text - n * ?cl"
  have e: "?e = length text mod n"
    by (simp add: minus_mult_div_eq_mod)
  have a: "0 + n * ?cl + ?e = length text" by simp
  have b: "?e \<le> n" using assms e by (simp add: less_imp_le)
  from uniform_loop_inv[OF a b] show ?thesis
    using assms e by (simp add: uniform_chunks_def Let_def)
qed

lemma vigenere_loop_chunks:
  "0 < cl \<Longrightarrow> \<exists>out. vigenere_loop text cl todo tc =
     Inr (map (\<lambda>i. take cl (drop (i * cl) text)) [tc..<min (tc + todo) (Suc (length text div cl))], out)"
proof (induction todo arbitrary: tc)
  case 0
  then show ?case by simp
next
  case (Suc todo)
  show ?case
  proof (cases "length text < tc * cl")
    case True
    then have "length text div cl < tc"
      using Suc.prems by (simp add: div_less_iff_less_mult)
    then have "[tc..<min (tc + Suc todo) (Suc (length text div cl))] = []" by simp
    then show ?thesis using True by (simp add: substr_def)
  next
    case False
    then have "tc \<le> length text div cl"
      using Suc.prems by (simp add: less_eq_div_iff_mult_less_eq)
    then have lt: "tc < min (tc + Suc todo) (Suc (length text div cl))" by simp
    have eq: "tc + Suc todo = Suc tc + todo" by simp
    have u: "[tc..<min (tc + Suc todo) (Suc (length text div cl))] =
        tc # [Suc tc..<min (Suc tc + todo) (Suc (length text div cl))]"
      using upt_conv_Cons[OF lt] unfolding eq .
    from Suc.IH[OF Suc.prems, of "Suc tc"] obtain out where
      "vigenere_loop text cl todo (Suc tc) =
        Inr (map (\<lambda>i. take cl (drop (i * cl) text)) [Suc tc..<min (Suc tc + todo) (Suc (length text div cl))], out)"
      by blast
    then show ?thesis using False unfolding u by (simp add: substr_def)
  qed
qed

lemma vigenere_loop_launched:
  "vigenere_loop text cl todo tc = Inr (cs, out) \<Longrightarrow> launched out = cs"
proof (induction todo arbitrary: tc cs out)
  case 0
  then show ?case by simp
next
  case (Suc todo)
  show ?case
  proof (cases "length text < tc * cl")
    case True
    then show ?thesis using Suc.prems by (auto simp: substr_def)
  next
    case False
    then obtain cs' out' where r: "vigenere_loop text cl todo (Suc tc) = Inr (cs', out')"
      using Suc.prems by (auto simp: substr_def split: sum.splits)
    then have "launched out' = cs'" by (rule Suc.IH)
    then show ?thesis using Suc.prems False r by (auto simp: substr_def)
  qed
qed

lemma concat_slices:
  "concat (map (\<lambda>i. take cl (drop (i * cl) text)) [0..<m]) = take (m * cl) text"
proof (induction m)
  case 0
  then show ?case by simp
next
  case (Suc m)
  have "take (m * cl + cl) text = take (m * cl) text @ take cl (drop (m * cl) text)"
    by (rule take_add)
  then show ?case using Suc by (simp add: add.commute)
qed

lemma vigenere_chunkLength_pos: "key \<noteq> [] \<Longrightarrow> 0 < vigenere_chunkLength n key text"
  by (simp add: vigenere_chunkLength_def)

lemma vigenere_chunkLength_dvd: "length key dvd vigenere_chunkLength n key text"
  by (simp add: vigenere_chunkLength_def)

lemma vigenere_chunkLength_covers:
  assumes "key \<noteq> []" "0 < n"
  shows "length text < n * vigenere_chunkLength n key text"
proof -
  let ?k = "length key"
  let ?q = "length text div ?k"
  have k: "0 < ?k" using assms by simp
  have "?q < n * (?q div n + 1)"
    using assms(2) by (metis add.commute dividend_less_times_div mult.commute mult_Suc_right plus_1_eq_Suc)
  then have "?q + 1 \<le> n * (?q div n + 1)" by simp
  then have a: "(?q + 1) * ?k \<le> n * (?q div n + 1) * ?k" by (rule mult_le_mono1)
  have b: "length text < (?q + 1) * ?k"
    using k by (metis Suc_eq_plus1 dividend_less_div_times mult.commute mult_Suc)
  from b a have "length text < n * (?q div n + 1) * ?k" by (rule less_le_trans)
  then show ?thesis unfolding vigenere_chunkLength_def by (simp only: mult.assoc)
qed

lemma chunk_offsets_dvd:
  "k dvd start \<Longrightarrow> key_aligned k cs \<Longrightarrow> \<forall>p \<in> set (chunk_offsets start cs). k dvd p"
proof (induction cs arbitrary: start)
  case Nil
  then show ?case by simp
next
  case (Cons c cs)
  show ?case
  proof (cases "cs = []")
    case True
    then show ?thesis using Cons.prems by simp
  next
    case False
    then have a: "k dvd length c" and b: "key_aligned k cs"
      using Cons.prems(2) by (simp_all add: key_aligned_def)
    have "k dvd start + length c" using a Cons.prems(1) by simp
    then have "\<forall>p \<in> set (chunk_offsets (start + length c) cs). k dvd p"
      using b by (rule Cons.IH)
    then show ?thesis using Cons.prems(1) by simp
  qed
qed

lemma slices_aligned:
  assumes "k dvd cl" "0 < cl"
  shows "key_aligned k (map (\<lambda>i. take cl (drop (i * cl) text)) [0..<Suc (length text div cl)])"
proof -
  have "k dvd length (take cl (drop (i * cl) text))" if "i < length text div cl" for i
  proof -
    have "Suc i * cl \<le> length text"
      using that assms(2) by (metis Suc_leI less_eq_div_iff_mult_less_eq)
    then have "length (take cl (drop (i * cl) text)) = cl" by simp
    then show ?thesis using assms(1) by simp
  qed
  then show ?thesis
    by (auto simp: key_aligned_def butlast_conv_take take_map simp del: upt_Suc)
qed

lemma vigenere_chunks_slices:
  assumes "key \<noteq> []" "0 < n"
  shows "\<exists>out. vigenere_chunks n key text =
     Inr (map (\<lambda>i. take (vigenere_chunkLength n key text)
                       (drop (i * vigenere_chunkLength n key text) text))
            [0..<Suc (length text div vigenere_chunkLength n key text)], out)"
proof -
  let ?cl = "vigenere_chunkLength n key text"
  have pos: "0 < ?cl" using assms(1) by (rule vigenere_chunkLength_pos)
  have "length text div ?cl < n"
    using vigenere_chunkLength_covers[OF assms] pos
    by (simp add: div_less_iff_less_mult mult.commute)
  then have m: "min (0 + n) (Suc (length text div ?cl)) = Suc (length text div ?cl)" by simp
  from vigenere_loop_chunks[OF pos, of "text" n 0] show ?thesis
    unfolding m using assms by (simp add: vigenere_chunks_def)
qed

lemma vigenere_chunks_spec:
  assumes "key \<noteq> []" "0 < n"
  shows "\<exists>cs out. vigenere_chunks n key text = Inr (cs, out) \<and> launched out = cs \<and>
     cs \<noteq> [] \<and> length cs \<le> n \<and> concat cs = text \<and> key_aligned (length key) cs \<and>
     (\<forall>p \<in> set (chunk_offsets 0 cs). length key dvd p)"
proof -
  let ?cl = "vigenere_chunkLength n key text"
  let ?cs = "map (\<lambda>i. take ?cl (drop (i * ?cl) text)) [0..<Suc (length text div ?cl)]"
  have pos: "0 < ?cl" using assms(1) by (rule vigenere_chunkLength_pos)
  from vigenere_chunks_slices[OF assms] obtain out where
    r: "vigenere_chunks n key text = Inr (?cs, out)" by blast
  have l: "launched out = ?cs"
    using r assms by (simp add: vigenere_chunks_def vigenere_loop_launched)
  have "length text div ?cl < n"
    using vigenere_chunkLength_covers[OF assms] pos
    by (simp add: div_less_iff_less_mult mult.commute)
  then have len: "length ?cs \<le> n" by simp
  have "length text < Suc (length text div ?cl) * ?cl"
    using pos by (metis dividend_less_div_times mult.commute mult_Suc add.commute)
  then have cc: "concat ?cs = text"
    unfolding concat_slices by simp
  have al: "key_aligned (length key) ?cs"
    using vigenere_chunkLength_dvd pos by (rule slices_aligned)
  have off: "\<forall>p \<in> set (chunk_offsets 0 ?cs). length key dvd p"
    using al by (intro chunk_offsets_dvd) simp_all
  have ne: "?cs \<noteq> []" by (simp del: upt_Suc)
  show ?thesis using r l ne len cc al off by blast
qed

lemma launched_map_Async: "launched (map Async cs) = cs"
  by (induction cs) simp_all

section \<open>Waiting and reassembly\<close>

lemma await_complete:
  "i \<in> set rdy \<union> set pend \<Longrightarrow>
   \<exists>w. await i rdy pend = Some w \<and> set (ready w) \<union> set (pending w) = set rdy \<union> set pend"
proof (induction pend arbitrary: rdy)
  case Nil
  then show ?case by simp
next
  case (Cons j js)
  show ?case
  proof (cases "i \<in> set rdy")
    case True
    then show ?thesis by simp
  next
    case False
    then have "i \<in> set (j # rdy) \<union> set js" using Cons.prems by auto
    from Cons.IH[OF this] obtain w where
      "await i (j # rdy) js = Some w" "set (ready w) \<union> set (pending w) = set (j # rdy) \<union> set js"
      by blast
    then show ?thesis using False by auto
  qed
qed

lemma get_loop_complete:
  "\<forall>k<length rs. i + k \<in> set (ready w) \<union> set (pending w) \<Longrightarrow>
   get_loop rs i w out tr = Some (out @ concat rs, tr @ map Get [i..<i + length rs])"
proof (induction rs arbitrary: i w out tr)
  case Nil
  then show ?case by simp
next
  case (Cons r rs)
  have "i \<in> set (ready w) \<union> set (pending w)" using Cons.prems by force
  from await_complete[OF this] obtain w' where
    w': "future_get i w = Some w'"
        "set (ready w') \<union> set (pending w') = set (ready w) \<union> set (pending w)"
    unfolding future_get_def by blast
  have "\<forall>k<length rs. Suc i + k \<in> set (ready w') \<union> set (pending w')"
  proof (intro allI impI)
    fix k assume "k < length rs"
    then have "i + Suc k \<in> set (ready w) \<union> set (pending w)" using Cons.prems by force
    then show "Suc i + k \<in> set (ready w') \<union> set (pending w')" using w'(2) by simp
  qed
  from Cons.IH[OF this] have
    "get_loop rs (Suc i) w' (out @ r) (tr @ [Get i]) =
       Some ((out @ r) @ concat rs, (tr @ [Get i]) @ map Get [Suc i..<Suc i + length rs])" .
  moreover have "[i..<i + length (r # rs)] = i # [Suc i..<Suc i + length rs]"
    by (subst upt_rec) simp
  ultimately show ?case using w'(1) by (simp del: upt_Suc)
qed

lemma poll_new_skipped: "poll_new n True w tr = Some (w, tr)"
  by (subst poll_new.simps) simp

lemma poll_old_skipped: "poll_old n 1 w tr = Some (w, tr)"
  by (subst poll_old.simps) simp

lemma dispatch_new_run:
  assumes "cipherType settings \<noteq> Playfair"
    and "submit_new settings inputText = Inr (cs, tr)"
    and "all_finish (length cs) sched"
  shows "dispatch_new f settings inputText sched =
     Some (Inr (concat (map (\<lambda>input. f input (cipherMode settings)) cs),
                tr @ map Get [0..<length cs]))"
proof -
  let ?rs = "map (\<lambda>input. f input (cipherMode settings)) cs"
  let ?w = "\<lparr>ready = [], pending = sched\<rparr>"
  have "\<forall>k<length ?rs. 0 + k \<in> set (ready ?w) \<union> set (pending ?w)"
    using assms(3) by (simp add: all_finish_def list_all_iff)
  from get_loop_complete[OF this, of "[]" tr] have
    "get_loop ?rs 0 ?w [] tr = Some (concat ?rs, tr @ map Get [0..<length cs])" by simp
  then show ?thesis
    using assms(1,2) by (simp add: dispatch_new_def poll_new_skipped)
qed

lemma dispatch_old_run:
  assumes "uniform_chunks threadNum inputText = Inr cs"
    and "all_finish (length cs) sched"
  shows "dispatch_old f settings inputText sched =
     Some (Inr (concat (map (\<lambda>input. f input (cipherMode settings)) cs),
                map Async cs @ map Get [0..<length cs]))"
proof -
  let ?rs = "map (\<lambda>input. f input (cipherMode settings)) cs"
  let ?w = "\<lparr>ready = [], pending = sched\<rparr>"
  have "\<forall>k<length ?rs. 0 + k \<in> set (ready ?w) \<union> set (pending ?w)"
    using assms(2) by (simp add: all_finish_def list_all_iff)
  from get_loop_complete[OF this, of "[]" "map Async cs"] have
    "get_loop ?rs 0 ?w [] (map Async cs) = Some (concat ?rs, map Async cs @ map Get [0..<length cs])"
    by simp
  then show ?thesis
    using assms(1) by (simp add: dispatch_old_def poll_old_skipped)
qed

lemma vigenere_loop_events:
  "vigenere_loop text cl todo tc = Inr (cs, out) \<Longrightarrow>
   \<forall>e \<in> set out. (\<exists>s. e = Stdout s) \<or> (\<exists>c. e = Async c)"
proof (induction todo arbitrary: tc cs out)
  case 0
  then show ?case by simp
next
  case (Suc todo)
  show ?case
  proof (cases "length text < tc * cl")
    case True
    then show ?thesis using Suc.prems by (auto simp: substr_def)
  next
    case False
    then obtain cs' out' where r: "vigenere_loop text cl todo (Suc tc) = Inr (cs', out')"
      using Suc.prems by (auto simp: substr_def split: sum.splits)
    then have ih: "\<forall>e \<in> set out'. (\<exists>s. e = Stdout s) \<or> (\<exists>c. e = Async c)" by (rule Suc.IH)
    have "out = Stdout (to_string tc @ endl) # Stdout (take cl (drop (tc * cl) text) @ endl) #
                Async (take cl (drop (tc * cl) text)) # out'"
      using Suc.prems False r by (simp add: substr_def)
    then show ?thesis using ih by auto
  qed
qed

lemma submit_new_events:
  assumes "submit_new settings inputText = Inr (cs, tr)"
  shows "\<forall>e \<in> set tr. (\<exists>s. e = Stdout s) \<or> (\<exists>c. e = Async c)"
proof (cases "cipherType settings")
  case Caesar
  then show ?thesis using assms by (auto simp: submit_new_def split: sum.splits)
next
  case Playfair
  then show ?thesis using assms by (auto simp: submit_new_def)
next
  case Vigenere
  then have "vigenere_chunks threadNum (cipherKey settings) inputText = Inr (cs, tr)"
    using assms by (simp add: submit_new_def)
  then have "vigenere_loop inputText (vigenere_chunkLength threadNum (cipherKey settings) inputText)
               threadNum 0 = Inr (cs, tr)"
    by (simp add: vigenere_chunks_def split: if_splits)
  then show ?thesis by (rule vigenere_loop_events)
qed

section \<open>Properties of the modelled ciphers\<close>




lemma vigenere_from_append:
  "vigenere_from key mode i (xs @ ys) =
   vigenere_from key mode i xs @ vigenere_from key mode (i + length xs) ys"
  by (induction xs arbitrary: i) simp_all

lemma vigenere_from_period:
  "length key dvd d \<Longrightarrow> vigenere_from key mode (i + d) xs = vigenere_from key mode i xs"
proof (induction xs arbitrary: i)
  case Nil
  then show ?case by simp
next
  case (Cons c cs)
  have "(i + d) mod length key = i mod length key"
    using Cons.prems by (metis dvd_eq_mod_eq_0 mod_add_right_eq add.right_neutral)
  moreover have "vigenere_from key mode (Suc i + d) cs = vigenere_from key mode (Suc i) cs"
    using Cons.prems by (rule Cons.IH)
  ultimately show ?case by simp
qed

lemma vigenere_concat:
  "key_aligned (length key) cs \<Longrightarrow>
   concat (map (vigenere_from key mode 0) cs) = vigenere_from key mode 0 (concat cs)"
proof (induction cs)
  case Nil
  then show ?case by simp
next
  case (Cons c cs)
  show ?case
  proof (cases "cs = []")
    case True
    then show ?thesis by simp
  next
    case False
    then have a: "length key dvd length c" and b: "key_aligned (length key) cs"
      using Cons.prems by (simp_all add: key_aligned_def)
    have "vigenere_from key mode 0 (c @ concat cs) =
          vigenere_from key mode 0 c @ vigenere_from key mode (0 + length c) (concat cs)"
      by (rule vigenere_from_append)
    also have "vigenere_from key mode (0 + length c) (concat cs) = vigenere_from key mode 0 (concat cs)"
      using a by (rule vigenere_from_period)
    finally show ?thesis using Cons.IH[OF b] by simp
  qed
qed


section \<open>The uniform split\<close>

text \<open>
  C7. For the Caesar cipher the chunks that either driver hands to its workers are a
  partition of the input text in order: there are \<open>threadNum\<close> of them, their
  concatenation is the input, chunk \<open>i\<close> has \<open>length div threadNum\<close> characters plus one
  more exactly when \<open>i < length mod threadNum\<close> (the remainder goes to the earliest
  chunks), and so any two lengths differ by at most one. No \<^verbatim>\<open>substr\<close> call throws.
\<close>

theorem caesar_chunks_partition:
  assumes "cipherType settings = Caesar"
  shows "\<exists>cs. uniform_chunks threadNum inputText = Inr cs \<and>
           submit_new settings inputText = Inr (cs, map Async cs) \<and>
           length cs = threadNum \<and> concat cs = inputText \<and>
           (\<forall>i<threadNum. length (cs ! i) =
                length inputText div threadNum +
                (if i < length inputText mod threadNum then 1 else 0)) \<and>
           (\<forall>i<threadNum. \<forall>j<threadNum. length (cs ! i) \<le> Suc (length (cs ! j)))"
proof -
  have "0 < threadNum" by (simp add: threadNum_def)
  from uniform_chunks_spec[OF this, of inputText] obtain cs where
    cs: "uniform_chunks threadNum inputText = Inr cs" "length cs = threadNum"
        "concat cs = inputText"
        "\<forall>i<threadNum. length (cs ! i) =
           length inputText div threadNum + (if i < length inputText mod threadNum then 1 else 0)"
    by blast
  have s: "submit_new settings inputText = Inr (cs, map Async cs)"
    using assms cs(1) by (simp add: submit_new_def)
  have "\<forall>i<threadNum. \<forall>j<threadNum. length (cs ! i) \<le> Suc (length (cs ! j))"
    using cs(4) by auto
  then show ?thesis using cs s by blast
qed

theorem caesar_chunks_partition_witness:
  "cipherType \<lparr>outputFile = [], cipherKey = ''10'', cipherMode = Encrypt, cipherType = Caesar\<rparr> = Caesar \<and>
   (\<exists>cs. uniform_chunks threadNum ''HELLOWORLDABC'' = Inr cs \<and>
      submit_new \<lparr>outputFile = [], cipherKey = ''10'', cipherMode = Encrypt, cipherType = Caesar\<rparr>
        ''HELLOWORLDABC'' = Inr (cs, map Async cs) \<and>
      length cs = threadNum \<and> concat cs = ''HELLOWORLDABC'' \<and>
      (\<forall>i<threadNum. length (cs ! i) =
           length ''HELLOWORLDABC'' div threadNum +
           (if i < length ''HELLOWORLDABC'' mod threadNum then 1 else 0)) \<and>
      (\<forall>i<threadNum. \<forall>j<threadNum. length (cs ! i) \<le> Suc (length (cs ! j))))"
proof (rule conjI)
  show "cipherType \<lparr>outputFile = [], cipherKey = ''10'', cipherMode = Encrypt, cipherType = Caesar\<rparr> = Caesar"
    by simp
  show "\<exists>cs. uniform_chunks threadNum ''HELLOWORLDABC'' = Inr cs \<and>
      submit_new \<lparr>outputFile = [], cipherKey = ''10'', cipherMode = Encrypt, cipherType = Caesar\<rparr>
        ''HELLOWORLDABC'' = Inr (cs, map Async cs) \<and>
      length cs = threadNum \<and> concat cs = ''HELLOWORLDABC'' \<and>
      (\<forall>i<threadNum. length (cs ! i) =
           length ''HELLOWORLDABC'' div threadNum +
           (if i < length ''HELLOWORLDABC'' mod threadNum then 1 else 0)) \<and>
      (\<forall>i<threadNum. \<forall>j<threadNum. length (cs ! i) \<le> Suc (length (cs ! j)))"
    by (rule caesar_chunks_partition) simp
qed

section \<open>The key-aligned split of the later driver\<close>

text \<open>
  C10. On the Vigenere path of the later driver with a non-empty key, the division by the
  key length is defined, no exception leaves the chunk loop (the \<^verbatim>\<open>std::out_of_range\<close> of
  \<^verbatim>\<open>substr\<close> is caught and ends the loop), and at most \<open>threadNum\<close> = 12 chunks are
  submitted: the submission step returns its chunks, they are exactly the chunks launched,
  and there are at most 12.
\<close>

theorem vigenere_dispatch_safe:
  assumes "cipherType settings = Vigenere" and "cipherKey settings \<noteq> []"
  shows "\<exists>cs out. submit_new settings inputText = Inr (cs, out) \<and>
           launched out = cs \<and> length cs \<le> threadNum \<and> threadNum = 12"
proof -
  have "0 < threadNum" by (simp add: threadNum_def)
  from vigenere_chunks_spec[OF assms(2) this, of inputText] obtain cs out where
    "vigenere_chunks threadNum (cipherKey settings) inputText = Inr (cs, out)"
    "launched out = cs" "length cs \<le> threadNum"
    by blast
  then show ?thesis using assms(1) by (simp add: submit_new_def threadNum_def)
qed

theorem vigenere_dispatch_safe_witness:
  "cipherType \<lparr>outputFile = [], cipherKey = ''hello'', cipherMode = Encrypt, cipherType = Vigenere\<rparr> = Vigenere \<and>
   cipherKey \<lparr>outputFile = [], cipherKey = ''hello'', cipherMode = Encrypt, cipherType = Vigenere\<rparr> \<noteq> [] \<and>
   (\<exists>cs out. submit_new \<lparr>outputFile = [], cipherKey = ''hello'', cipherMode = Encrypt, cipherType = Vigenere\<rparr>
        ''THISIS'' = Inr (cs, out) \<and>
      launched out = cs \<and> length cs \<le> threadNum \<and> threadNum = 12)"
proof (intro conjI)
  show "cipherType \<lparr>outputFile = [], cipherKey = ''hello'', cipherMode = Encrypt, cipherType = Vigenere\<rparr> = Vigenere"
    by simp
  show "cipherKey \<lparr>outputFile = [], cipherKey = ''hello'', cipherMode = Encrypt, cipherType = Vigenere\<rparr> \<noteq> []"
    by simp
  show "\<exists>cs out. submit_new \<lparr>outputFile = [], cipherKey = ''hello'', cipherMode = Encrypt, cipherType = Vigenere\<rparr>
        ''THISIS'' = Inr (cs, out) \<and>
      launched out = cs \<and> length cs \<le> threadNum \<and> threadNum = 12"
    by (rule vigenere_dispatch_safe) simp_all
qed

section \<open>Outcomes of whole runs\<close>

lemma write_output_appends:
  "\<exists>code e. write_output settings streamGood outputText tr = Exit code (tr @ [e])"
  by (simp add: write_output_def)

lemma caesar_concat:
  "concat (map (\<lambda>x. applyCipher (CaesarCipher s) x mode) chunks) =
   applyCipher (CaesarCipher s) (concat chunks) mode"
  by (simp add: map_concat)

lemma vigenere_cipher_concat:
  "key_aligned (length key) chunks \<Longrightarrow>
   concat (map (\<lambda>x. applyCipher (VigenereCipher key) x mode) chunks) =
   applyCipher (VigenereCipher key) (concat chunks) mode"
  using vigenere_concat[of key chunks mode] by simp

lemma new_driver_playfair_whole:
  "cipherType settings = Playfair \<Longrightarrow>
   main_new f settings inputText sched streamGood =
     Some (write_output settings streamGood (f inputText (cipherMode settings)) [Call inputText])"
  by (simp add: main_new_def dispatch_new_def)

section \<open>The square of the digraph cipher\<close>



























section \<open>Decimal keys\<close>

lemma accepted_keyword_nonempty:
  "cipherFactory Vigenere key = Inr c \<Longrightarrow> key \<noteq> [] \<and> c = VigenereCipher (map to_upper key)"
  by (auto simp: cipherFactory_def split: if_splits)

lemma digit_char: "d < 10 \<Longrightarrow> (of_char (char_of (48 + d :: nat)) :: nat) = 48 + d"
  by simp

lemma parse_decimal_snoc:
  "parse_decimal (xs @ [c]) = 10 * parse_decimal xs + ((of_char c :: nat) - 48)"
  by (simp add: parse_decimal_def)

lemma to_string_digits:
  "to_string n \<noteq> [] \<and> list_all is_digit (to_string n) \<and> parse_decimal (to_string n) = n"
proof (induction n rule: to_string.induct)
  case (1 n)
  show ?case
  proof (cases "n < 10")
    case True
    then have "to_string n = [char_of (48 + n)]" by (simp add: to_string.simps)
    then show ?thesis using digit_char[OF True] True by (simp add: is_digit_def parse_decimal_def)
  next
    case False
    then have t: "to_string n = to_string (n div 10) @ [char_of (48 + n mod 10)]"
      by (subst to_string.simps) simp
    have d: "(of_char (char_of (48 + n mod 10 :: nat)) :: nat) = 48 + n mod 10"
      by (rule digit_char) simp
    from 1[OF False] show ?thesis
      unfolding t by (simp add: parse_decimal_snoc d is_digit_def)
  qed
qed

lemma parse_decimal_zeros:
  "parse_decimal (replicate z (CHR ''0'') @ xs) = parse_decimal xs"
proof -
  have "foldl (\<lambda>n c. 10 * n + ((of_char c :: nat) - 48)) 0 (replicate z (CHR ''0'')) = 0"
    by (induction z) simp_all
  then show ?thesis by (simp add: parse_decimal_def)
qed

lemma is_digit_char: "is_digit c \<Longrightarrow> c = char_of (48 + ((of_char c :: nat) - 48)) \<and> (of_char c :: nat) - 48 < 10"
proof -
  assume "is_digit c"
  then have a: "48 \<le> (of_char c :: nat)" "(of_char c :: nat) \<le> 57" by (simp_all add: is_digit_def)
  then have "48 + ((of_char c :: nat) - 48) = of_char c" by linarith
  then have "char_of (48 + ((of_char c :: nat) - 48)) = c" by simp
  moreover have "(of_char c :: nat) - 48 < 10" using a by linarith
  ultimately show ?thesis by simp
qed

lemma digit_string_shape:
  "k \<noteq> [] \<Longrightarrow> list_all is_digit k \<Longrightarrow>
   \<exists>z. k = replicate z (CHR ''0'') @ to_string (parse_decimal k)"
proof (induction k rule: rev_induct)
  case Nil
  then show ?case by simp
next
  case (snoc c xs)
  let ?d = "(of_char c :: nat) - 48"
  have dc: "c = char_of (48 + ?d)" and d: "?d < 10"
    using snoc.prems(2) is_digit_char[of c] by simp_all
  have p: "parse_decimal (xs @ [c]) = 10 * parse_decimal xs + ?d" by (rule parse_decimal_snoc)
  show ?case
  proof (cases "xs = []")
    case True
    then have "parse_decimal (xs @ [c]) = ?d" by (simp add: parse_decimal_def)
    moreover have "to_string ?d = [c]" using d dc by (subst to_string.simps) simp
    ultimately have "xs @ [c] = replicate 0 (CHR ''0'') @ to_string (parse_decimal (xs @ [c]))"
      using True by simp
    then show ?thesis by blast
  next
    case False
    then obtain z where z: "xs = replicate z (CHR ''0'') @ to_string (parse_decimal xs)"
      using snoc.IH snoc.prems(2) by auto
    show ?thesis
    proof (cases "parse_decimal xs = 0")
      case True
      have "to_string 0 = [CHR ''0'']" by code_simp
      then have "xs = replicate (Suc z) (CHR ''0'')"
        using z True by (simp add: replicate_append_same)
      moreover have "to_string (parse_decimal (xs @ [c])) = [c]"
        unfolding p True using d dc by (subst to_string.simps) simp
      ultimately have "xs @ [c] = replicate (Suc z) (CHR ''0'') @ to_string (parse_decimal (xs @ [c]))"
        by simp
      then show ?thesis by blast
    next
      case False
      let ?m = "parse_decimal xs"
      have ge: "\<not> 10 * ?m + ?d < 10" using False by simp
      have "(10 * ?m + ?d) div 10 = ?m" "(10 * ?m + ?d) mod 10 = ?d" using d by simp_all
      then have "to_string (10 * ?m + ?d) = to_string ?m @ [char_of (48 + ?d)]"
        using ge by (subst to_string.simps) simp
      then have "to_string (parse_decimal (xs @ [c])) = to_string ?m @ [c]"
        unfolding p using dc by simp
      then have "xs @ [c] = replicate z (CHR ''0'') @ to_string (parse_decimal (xs @ [c]))"
        using z by simp
      then show ?thesis by blast
    qed
  qed
qed

lemma caesar_key_represents:
  "cipherFactory Caesar k = Inr c \<longleftrightarrow>
     (\<exists>z n. k = replicate z (CHR ''0'') @ to_string n \<and> c = CaesarCipher (n mod 26))"
proof
  assume a: "cipherFactory Caesar k = Inr c"
  then have ne: "k \<noteq> []" and dg: "list_all is_digit k"
    and c: "c = CaesarCipher (parse_decimal k mod 26)"
    by (auto simp: cipherFactory_def split: if_splits)
  from digit_string_shape[OF ne dg] obtain z where
    "k = replicate z (CHR ''0'') @ to_string (parse_decimal k)" by blast
  then show "\<exists>z n. k = replicate z (CHR ''0'') @ to_string n \<and> c = CaesarCipher (n mod 26)"
    using c by blast
next
  assume "\<exists>z n. k = replicate z (CHR ''0'') @ to_string n \<and> c = CaesarCipher (n mod 26)"
  then obtain z n where k: "k = replicate z (CHR ''0'') @ to_string n"
    and c: "c = CaesarCipher (n mod 26)" by blast
  have z0: "is_digit (CHR ''0'')" by (simp add: is_digit_def)
  have "k \<noteq> []" using k to_string_digits[of n] by simp
  moreover have "list_all is_digit k"
    using k to_string_digits[of n] z0 by (auto simp: list_all_iff)
  moreover have "parse_decimal k = n"
    unfolding k parse_decimal_zeros using to_string_digits[of n] by simp
  ultimately show "cipherFactory Caesar k = Inr c" using c by (simp add: cipherFactory_def)
qed

section \<open>Chunked and unsplit processing\<close>

text \<open>
  C1. For the Caesar and the Vigenere cipher, every key the factory accepts, every input
  text and both modes (the mode is a field of the settings), splitting by the policy of
  section 4.5, applying \<open>applyCipher\<close> to each chunk on its own and concatenating the results
  in submission order gives exactly what one \<open>applyCipher\<close> call on the whole text gives.
  This holds for the later driver whenever every launched worker finishes, for the earlier
  driver with the Caesar cipher, and for any list of chunks at all, of any number, that
  follows the policy: any split for the Caesar cipher, any split whose chunks except the
  last have a length that is a multiple of the key length for the Vigenere cipher.
\<close>

theorem chunked_equals_unsplit:
  assumes "cipherType settings = Caesar \<or> cipherType settings = Vigenere"
    and "cipherFactory (cipherType settings) (cipherKey settings) = Inr c"
    and "all_finish (length (chunks_new settings inputText)) sched"
  shows "(\<exists>tr. dispatch_new (applyCipher c) settings inputText sched =
            Some (Inr (applyCipher c inputText (cipherMode settings), tr))) \<and>
         (cipherType settings = Caesar \<longrightarrow>
            (\<exists>tr. dispatch_old (applyCipher c) settings inputText sched =
               Some (Inr (applyCipher c inputText (cipherMode settings), tr)))) \<and>
         (\<forall>chunks mode.
            (cipherType settings = Vigenere \<longrightarrow> key_aligned (length (cipherKey settings)) chunks) \<longrightarrow>
            concat (map (\<lambda>chunk. applyCipher c chunk mode) chunks) =
              applyCipher c (concat chunks) mode)"
proof -
  have np: "cipherType settings \<noteq> Playfair" using assms(1) by auto
  have tn: "0 < threadNum" by (simp add: threadNum_def)
  from assms(1) show ?thesis
  proof
    assume ca: "cipherType settings = Caesar"
    then obtain s where c: "c = CaesarCipher s"
      using assms(2) by (auto simp: cipherFactory_def split: if_splits)
    from uniform_chunks_spec[OF tn, of inputText] obtain cs where
      cs0: "uniform_chunks threadNum inputText = Inr cs" "concat cs = inputText"
      by blast
    have cs: "uniform_chunks threadNum inputText = Inr cs"
          "submit_new settings inputText = Inr (cs, map Async cs)" "concat cs = inputText"
      using cs0 ca by (simp_all add: submit_new_def)
    have fin: "all_finish (length cs) sched"
      using assms(3) cs(2) by (simp add: chunks_new_def)
    have eq: "concat (map (\<lambda>input. applyCipher c input (cipherMode settings)) cs) =
              applyCipher c inputText (cipherMode settings)"
      unfolding c caesar_concat cs(3) ..
    have n: "\<exists>tr. dispatch_new (applyCipher c) settings inputText sched =
            Some (Inr (applyCipher c inputText (cipherMode settings), tr))"
      using dispatch_new_run[OF np cs(2) fin, of "applyCipher c"] eq by simp
    have o: "\<exists>tr. dispatch_old (applyCipher c) settings inputText sched =
            Some (Inr (applyCipher c inputText (cipherMode settings), tr))"
      using dispatch_old_run[OF cs(1) fin, of "applyCipher c" settings] eq by simp
    have g: "\<forall>chunks mode. concat (map (\<lambda>chunk. applyCipher c chunk mode) chunks) =
              applyCipher c (concat chunks) mode"
      unfolding c by (simp add: map_concat)
    show ?thesis using n o g by blast
  next
    assume vi: "cipherType settings = Vigenere"
    then have c: "c = VigenereCipher (map to_upper (cipherKey settings))"
      and ne: "cipherKey settings \<noteq> []"
      using assms(2) by (auto simp: cipherFactory_def split: if_splits)
    let ?K = "map to_upper (cipherKey settings)"
    have lk: "length ?K = length (cipherKey settings)" by simp
    from vigenere_chunks_spec[OF ne tn, of inputText] obtain cs out where
      cs: "vigenere_chunks threadNum (cipherKey settings) inputText = Inr (cs, out)"
          "concat cs = inputText" "key_aligned (length (cipherKey settings)) cs"
      by blast
    have sub: "submit_new settings inputText = Inr (cs, out)"
      using vi cs(1) by (simp add: submit_new_def)
    have fin: "all_finish (length cs) sched"
      using assms(3) sub by (simp add: chunks_new_def)
    have "key_aligned (length ?K) cs" using cs(3) by simp
    then have "concat (map (\<lambda>x. applyCipher (VigenereCipher ?K) x (cipherMode settings)) cs) =
          applyCipher (VigenereCipher ?K) (concat cs) (cipherMode settings)"
      by (rule vigenere_cipher_concat)
    then have eq: "concat (map (\<lambda>input. applyCipher c input (cipherMode settings)) cs) =
              applyCipher c inputText (cipherMode settings)"
      unfolding c cs(2) .
    have n: "\<exists>tr. dispatch_new (applyCipher c) settings inputText sched =
            Some (Inr (applyCipher c inputText (cipherMode settings), tr))"
      using dispatch_new_run[OF np sub fin, of "applyCipher c"] eq by simp
    have g: "\<forall>chunks mode. key_aligned (length (cipherKey settings)) chunks \<longrightarrow>
              concat (map (\<lambda>chunk. applyCipher c chunk mode) chunks) =
              applyCipher c (concat chunks) mode"
    proof (intro allI impI)
      fix chunks mode
      assume "key_aligned (length (cipherKey settings)) chunks"
      then have "key_aligned (length ?K) chunks" by simp
      then show "concat (map (\<lambda>chunk. applyCipher c chunk mode) chunks) =
              applyCipher c (concat chunks) mode"
        unfolding c by (rule vigenere_cipher_concat)
    qed
    show ?thesis using n g vi by simp
  qed
qed

theorem chunked_equals_unsplit_witness:
  "(cipherType \<lparr>outputFile = [], cipherKey = ''hello'', cipherMode = Encrypt, cipherType = Vigenere\<rparr> = Caesar \<or>
    cipherType \<lparr>outputFile = [], cipherKey = ''hello'', cipherMode = Encrypt, cipherType = Vigenere\<rparr> = Vigenere) \<and>
   cipherFactory (cipherType \<lparr>outputFile = [], cipherKey = ''hello'', cipherMode = Encrypt, cipherType = Vigenere\<rparr>)
     (cipherKey \<lparr>outputFile = [], cipherKey = ''hello'', cipherMode = Encrypt, cipherType = Vigenere\<rparr>) = Inr (VigenereCipher ''HELLO'') \<and>
   all_finish (length (chunks_new \<lparr>outputFile = [], cipherKey = ''hello'', cipherMode = Encrypt, cipherType = Vigenere\<rparr> ''THISISQUITEALONG'')) [3, 1, 0, 2] \<and>
   (\<exists>tr. dispatch_new (applyCipher (VigenereCipher ''HELLO''))
            \<lparr>outputFile = [], cipherKey = ''hello'', cipherMode = Encrypt, cipherType = Vigenere\<rparr>
            ''THISISQUITEALONG'' [3, 1, 0, 2] =
          Some (Inr (applyCipher (VigenereCipher ''HELLO'') ''THISISQUITEALONG''
                       (cipherMode \<lparr>outputFile = [], cipherKey = ''hello'', cipherMode = Encrypt, cipherType = Vigenere\<rparr>), tr))) \<and>
   key_aligned (length (cipherKey \<lparr>outputFile = [], cipherKey = ''hello'', cipherMode = Encrypt, cipherType = Vigenere\<rparr>)) [''THISI'', ''SQUITEALON'', ''G''] \<and>
   concat (map (\<lambda>chunk. applyCipher (VigenereCipher ''HELLO'') chunk Decrypt) [''THISI'', ''SQUITEALON'', ''G'']) =
     applyCipher (VigenereCipher ''HELLO'') (concat [''THISI'', ''SQUITEALON'', ''G'']) Decrypt \<and>
   (cipherType \<lparr>outputFile = [], cipherKey = ''3'', cipherMode = Encrypt, cipherType = Caesar\<rparr> = Caesar \<or>
    cipherType \<lparr>outputFile = [], cipherKey = ''3'', cipherMode = Encrypt, cipherType = Caesar\<rparr> = Vigenere) \<and>
   cipherFactory (cipherType \<lparr>outputFile = [], cipherKey = ''3'', cipherMode = Encrypt, cipherType = Caesar\<rparr>)
     (cipherKey \<lparr>outputFile = [], cipherKey = ''3'', cipherMode = Encrypt, cipherType = Caesar\<rparr>) = Inr (CaesarCipher 3) \<and>
   all_finish (length (chunks_new \<lparr>outputFile = [], cipherKey = ''3'', cipherMode = Encrypt, cipherType = Caesar\<rparr> ''HELLOWORLDABC'')) [11, 10, 9, 8, 7, 6, 5, 4, 3, 2, 1, 0] \<and>
   cipherType \<lparr>outputFile = [], cipherKey = ''3'', cipherMode = Encrypt, cipherType = Caesar\<rparr> = Caesar \<and>
   (\<exists>tr. dispatch_old (applyCipher (CaesarCipher 3))
            \<lparr>outputFile = [], cipherKey = ''3'', cipherMode = Encrypt, cipherType = Caesar\<rparr>
            ''HELLOWORLDABC'' [11, 10, 9, 8, 7, 6, 5, 4, 3, 2, 1, 0] =
          Some (Inr (applyCipher (CaesarCipher 3) ''HELLOWORLDABC''
                       (cipherMode \<lparr>outputFile = [], cipherKey = ''3'', cipherMode = Encrypt, cipherType = Caesar\<rparr>), tr)))"
proof -
  have h1: "cipherType \<lparr>outputFile = [], cipherKey = ''hello'', cipherMode = Encrypt, cipherType = Vigenere\<rparr> = Caesar \<or>
    cipherType \<lparr>outputFile = [], cipherKey = ''hello'', cipherMode = Encrypt, cipherType = Vigenere\<rparr> = Vigenere" by simp
  have h2: "cipherFactory (cipherType \<lparr>outputFile = [], cipherKey = ''hello'', cipherMode = Encrypt, cipherType = Vigenere\<rparr>)
     (cipherKey \<lparr>outputFile = [], cipherKey = ''hello'', cipherMode = Encrypt, cipherType = Vigenere\<rparr>) = Inr (VigenereCipher ''HELLO'')"
    by code_simp
  have h3: "all_finish (length (chunks_new \<lparr>outputFile = [], cipherKey = ''hello'', cipherMode = Encrypt, cipherType = Vigenere\<rparr> ''THISISQUITEALONG'')) [3, 1, 0, 2]"
    by code_simp
  note v = chunked_equals_unsplit[OF h1 h2 h3]
  have c: "\<exists>tr. dispatch_new (applyCipher (VigenereCipher ''HELLO''))
            \<lparr>outputFile = [], cipherKey = ''hello'', cipherMode = Encrypt, cipherType = Vigenere\<rparr>
            ''THISISQUITEALONG'' [3, 1, 0, 2] =
          Some (Inr (applyCipher (VigenereCipher ''HELLO'') ''THISISQUITEALONG''
                       (cipherMode \<lparr>outputFile = [], cipherKey = ''hello'', cipherMode = Encrypt, cipherType = Vigenere\<rparr>), tr))"
    using v by (rule conjunct1)
  have k: "key_aligned (length (cipherKey \<lparr>outputFile = [], cipherKey = ''hello'', cipherMode = Encrypt, cipherType = Vigenere\<rparr>)) [''THISI'', ''SQUITEALON'', ''G'']"
    by code_simp
  have d: "concat (map (\<lambda>chunk. applyCipher (VigenereCipher ''HELLO'') chunk Decrypt) [''THISI'', ''SQUITEALON'', ''G'']) =
     applyCipher (VigenereCipher ''HELLO'') (concat [''THISI'', ''SQUITEALON'', ''G'']) Decrypt"
    using v k by blast
  have g1: "cipherType \<lparr>outputFile = [], cipherKey = ''3'', cipherMode = Encrypt, cipherType = Caesar\<rparr> = Caesar \<or>
    cipherType \<lparr>outputFile = [], cipherKey = ''3'', cipherMode = Encrypt, cipherType = Caesar\<rparr> = Vigenere" by simp
  have g2: "cipherFactory (cipherType \<lparr>outputFile = [], cipherKey = ''3'', cipherMode = Encrypt, cipherType = Caesar\<rparr>)
     (cipherKey \<lparr>outputFile = [], cipherKey = ''3'', cipherMode = Encrypt, cipherType = Caesar\<rparr>) = Inr (CaesarCipher 3)"
    by code_simp
  have g3: "all_finish (length (chunks_new \<lparr>outputFile = [], cipherKey = ''3'', cipherMode = Encrypt, cipherType = Caesar\<rparr> ''HELLOWORLDABC'')) [11, 10, 9, 8, 7, 6, 5, 4, 3, 2, 1, 0]"
    by code_simp
  have g4: "cipherType \<lparr>outputFile = [], cipherKey = ''3'', cipherMode = Encrypt, cipherType = Caesar\<rparr> = Caesar" by simp
  have e: "\<exists>tr. dispatch_old (applyCipher (CaesarCipher 3))
            \<lparr>outputFile = [], cipherKey = ''3'', cipherMode = Encrypt, cipherType = Caesar\<rparr>
            ''HELLOWORLDABC'' [11, 10, 9, 8, 7, 6, 5, 4, 3, 2, 1, 0] =
          Some (Inr (applyCipher (CaesarCipher 3) ''HELLOWORLDABC''
                       (cipherMode \<lparr>outputFile = [], cipherKey = ''3'', cipherMode = Encrypt, cipherType = Caesar\<rparr>), tr))"
    using chunked_equals_unsplit[OF g1 g2 g3] g4 by blast
  show ?thesis using h1 h2 h3 c k d g1 g2 g3 g4 e by blast
qed

text \<open>
  C3. The earlier driver (\<^verbatim>\<open>mpags-cipher.cpp\<close>) splits a Vigenere text with the uniform loop:
  with the key \<^verbatim>\<open>hello\<close> and the 56 letters of the unit test, the tenth chunk starts at
  offset 44, which is not a multiple of the key length 5, and the reassembled text differs
  from the ciphertext of the whole text that the unit test expects.
\<close>

theorem old_driver_vigenere_unaligned:
  "cipherFactory Vigenere ''hello'' = Inr (VigenereCipher ''HELLO'') \<and>
   uniform_chunks threadNum ''THISISQUITEALONGMESSAGESOTHEKEYWILLNEEDTOREPEATAFEWTIMES'' =
     Inr [''THISI'', ''SQUIT'', ''EALON'', ''GMESS'', ''AGESO'', ''THEKE'', ''YWILL'', ''NEEDT'',
          ''OREP'', ''EATA'', ''FEWT'', ''IMES''] \<and>
   chunk_offsets 0 [''THISI'', ''SQUIT'', ''EALON'', ''GMESS'', ''AGESO'', ''THEKE'', ''YWILL'', ''NEEDT'',
          ''OREP'', ''EATA'', ''FEWT'', ''IMES''] = [0, 5, 10, 15, 20, 25, 30, 35, 40, 44, 48, 52] \<and>
   \<not> length ''hello'' dvd (44 :: nat) \<and>
   dispatch_old (applyCipher (VigenereCipher ''HELLO''))
     \<lparr>outputFile = [], cipherKey = ''hello'', cipherMode = Encrypt, cipherType = Vigenere\<rparr>
     ''THISISQUITEALONGMESSAGESOTHEKEYWILLNEEDTOREPEATAFEWTIMES'' [0, 1, 2, 3, 4, 5, 6, 7, 8, 9, 10, 11] =
     Some (Inr (''ALTDWZUFTHLEWZBNQPDGHKPDCALPVSFATWZUIPOHVVPALEELMIHEPQPD'',
        [Async ''THISI'', Async ''SQUIT'', Async ''EALON'', Async ''GMESS'',
         Async ''AGESO'', Async ''THEKE'', Async ''YWILL'', Async ''NEEDT'',
         Async ''OREP'', Async ''EATA'', Async ''FEWT'', Async ''IMES'',
         Get 0, Get 1, Get 2, Get 3, Get 4, Get 5, Get 6, Get 7, Get 8,
         Get 9, Get 10, Get 11])) \<and>
   applyCipher (VigenereCipher ''HELLO'')
     ''THISISQUITEALONGMESSAGESOTHEKEYWILLNEEDTOREPEATAFEWTIMES'' Encrypt =
     ''ALTDWZUFTHLEWZBNQPDGHKPDCALPVSFATWZUIPOHVVPASHXLQSDXTXSZ''"
  by code_simp

text \<open>
  C2. The earlier driver (\<^verbatim>\<open>mpags-cipher.cpp\<close>) has no branch for the Playfair cipher: with
  the key \<^verbatim>\<open>hello\<close> and the text \<^verbatim>\<open>AB\<close> it launches twelve workers, on the chunks \<^verbatim>\<open>A\<close>,
  \<^verbatim>\<open>B\<close> and ten empty strings, and assembles \<^verbatim>\<open>GAGV\<close>, while the later driver makes the one
  call on the whole text and returns \<^verbatim>\<open>HG\<close>.
\<close>

theorem old_driver_splits_playfair:
  "cipherFactory Playfair ''hello'' = Inr (PlayfairCipher ''HELLO'') \<and>
   dispatch_old (applyCipher (PlayfairCipher ''HELLO''))
     \<lparr>outputFile = [], cipherKey = ''hello'', cipherMode = Encrypt, cipherType = Playfair\<rparr>
     ''AB'' [0, 1, 2, 3, 4, 5, 6, 7, 8, 9, 10, 11] =
     Some (Inr (''GAGV'',
        [Async ''A'', Async ''B'', Async [], Async [], Async [], Async [],
         Async [], Async [], Async [], Async [], Async [], Async [], Get 0,
         Get 1, Get 2, Get 3, Get 4, Get 5, Get 6, Get 7, Get 8, Get 9,
         Get 10, Get 11])) \<and>
   dispatch_new (applyCipher (PlayfairCipher ''HELLO''))
     \<lparr>outputFile = [], cipherKey = ''hello'', cipherMode = Encrypt, cipherType = Playfair\<rparr>
     ''AB'' [0, 1, 2, 3, 4, 5, 6, 7, 8, 9, 10, 11] = Some (Inr (''HG'', [Call ''AB''])) \<and>
   applyCipher (PlayfairCipher ''HELLO'') ''AB'' Encrypt = ''HG''"
  by code_simp

section \<open>Reassembly and waiting\<close>

text \<open>
  What holds of every run that splits the text (the later driver with a cipher other than
  Playfair, the earlier driver always) and in which every launched worker finishes,
  whatever the order \<open>sched\<close> in which the workers finish: the events are those of the
  submission loop, then one \<open>Get\<close> per future in index order, then a single last event,
  which writes the concatenation of the workers' results in the order of submission to the
  standard output or to the output file, or reports that the file cannot be opened. The
  events of the submission loop are launches and writes to the standard output.
\<close>

lemma runs_reassemble_by_index:
  "(cipherType settings \<noteq> Playfair \<longrightarrow> submit_new settings inputText = Inr (cs, tr) \<longrightarrow>
      all_finish (length cs) sched \<longrightarrow>
      main_new f settings inputText sched streamGood =
        Some (if outputFile settings = [] then Exit 0 ((tr @ map Get [0..<length cs]) @ [Stdout (concat (map (\<lambda>chunk. f chunk (cipherMode settings)) cs) @ endl)])
              else if streamGood then Exit 0 ((tr @ map Get [0..<length cs]) @ [FileOut (concat (map (\<lambda>chunk. f chunk (cipherMode settings)) cs) @ endl)])
              else Exit 1 ((tr @ map Get [0..<length cs]) @
                     [Stderr (''[error] failed to create ostream on file '' @ [CHR 0x27] @
                              outputFile settings @ [CHR 0x27] @ endl)])) \<and>
      launched tr = cs \<and>
      (\<forall>e \<in> set tr. (\<exists>s. e = Stdout s) \<or> (\<exists>c. e = Async c))) \<and>
   (uniform_chunks threadNum inputText = Inr cs' \<longrightarrow> all_finish (length cs') sched \<longrightarrow>
      main_old f settings inputText sched streamGood =
        Some (if outputFile settings = [] then Exit 0 ((map Async cs' @ map Get [0..<length cs']) @ [Stdout (concat (map (\<lambda>chunk. f chunk (cipherMode settings)) cs') @ endl)])
              else if streamGood then Exit 0 ((map Async cs' @ map Get [0..<length cs']) @ [FileOut (concat (map (\<lambda>chunk. f chunk (cipherMode settings)) cs') @ endl)])
              else Exit 1 ((map Async cs' @ map Get [0..<length cs']) @
                     [Stderr (''[error] failed to create ostream on file '' @ [CHR 0x27] @
                              outputFile settings @ [CHR 0x27] @ endl)])))"
proof (intro conjI impI)
  assume a: "cipherType settings \<noteq> Playfair" "submit_new settings inputText = Inr (cs, tr)"
    "all_finish (length cs) sched"
  from dispatch_new_run[OF a, of f]
  show "main_new f settings inputText sched streamGood =
        Some (if outputFile settings = [] then Exit 0 ((tr @ map Get [0..<length cs]) @ [Stdout (concat (map (\<lambda>chunk. f chunk (cipherMode settings)) cs) @ endl)])
              else if streamGood then Exit 0 ((tr @ map Get [0..<length cs]) @ [FileOut (concat (map (\<lambda>chunk. f chunk (cipherMode settings)) cs) @ endl)])
              else Exit 1 ((tr @ map Get [0..<length cs]) @
                     [Stderr (''[error] failed to create ostream on file '' @ [CHR 0x27] @
                              outputFile settings @ [CHR 0x27] @ endl)]))"
    by (simp add: main_new_def write_output_def)
  show "launched tr = cs"
  proof (cases "cipherType settings")
    case Caesar
    then show ?thesis using a(2) by (auto simp: submit_new_def launched_map_Async split: sum.splits)
  next
    case Playfair
    then show ?thesis using a(1) by simp
  next
    case Vigenere
    then show ?thesis using a(2)
      by (auto simp: submit_new_def vigenere_chunks_def vigenere_loop_launched split: if_splits)
  qed
  show "\<forall>e \<in> set tr. (\<exists>s. e = Stdout s) \<or> (\<exists>c. e = Async c)"
    using a(2) by (rule submit_new_events)
next
  assume b: "uniform_chunks threadNum inputText = Inr cs'" "all_finish (length cs') sched"
  from dispatch_old_run[OF b, of f settings]
  show "main_old f settings inputText sched streamGood =
        Some (if outputFile settings = [] then Exit 0 ((map Async cs' @ map Get [0..<length cs']) @ [Stdout (concat (map (\<lambda>chunk. f chunk (cipherMode settings)) cs') @ endl)])
              else if streamGood then Exit 0 ((map Async cs' @ map Get [0..<length cs']) @ [FileOut (concat (map (\<lambda>chunk. f chunk (cipherMode settings)) cs') @ endl)])
              else Exit 1 ((map Async cs' @ map Get [0..<length cs']) @
                     [Stderr (''[error] failed to create ostream on file '' @ [CHR 0x27] @
                              outputFile settings @ [CHR 0x27] @ endl)]))"
    by (simp add: main_old_def write_output_def)
qed

text \<open>
  C8. The later driver on its Vigenere path writes to the standard output before any result
  has been obtained: with the key \<^verbatim>\<open>hello\<close> and the text \<^verbatim>\<open>THISIS\<close> the loop prints the
  counter and each input chunk (lines 184 and 196) while it launches the two workers, and
  prints the counter once more before the caught exception ends the loop; only then come
  the \<open>Get\<close> on future 0 and on future 1 and the line with the result. The Caesar path of
  the same driver, on the same text, writes nothing before its last \<open>Get\<close>. In both runs
  the result is assembled in the order of submission although worker 1 finishes first.
\<close>

theorem vigenere_path_prints_before_get:
  "main_new (applyCipher (VigenereCipher ''HELLO''))
     \<lparr>outputFile = [], cipherKey = ''hello'', cipherMode = Encrypt, cipherType = Vigenere\<rparr>
     ''THISIS'' [1, 0] True =
   Some (Exit 0 [Stdout (''0'' @ endl), Stdout (''THISI'' @ endl), Async ''THISI'',
                 Stdout (''1'' @ endl), Stdout (''S'' @ endl), Async ''S'',
                 Stdout (''2'' @ endl), Get 0, Get 1, Stdout (''ALTDWZ'' @ endl)]) \<and>
   main_new (applyCipher (CaesarCipher 3))
     \<lparr>outputFile = [], cipherKey = ''3'', cipherMode = Encrypt, cipherType = Caesar\<rparr>
     ''THISIS'' [1, 0, 2, 3, 4, 5, 6, 7, 8, 9, 10, 11] True =
   Some (Exit 0 [Async ''T'', Async ''H'', Async ''I'', Async ''S'', Async ''I'', Async ''S'',
                 Async [], Async [], Async [], Async [], Async [], Async [],
                 Get 0, Get 1, Get 2, Get 3, Get 4, Get 5, Get 6, Get 7, Get 8, Get 9, Get 10,
                 Get 11, Stdout (''WKLVLV'' @ endl)])"
  by code_simp

text \<open>
  C9. The polling loop of either driver returns at once, with the state of the futures and
  the events unchanged, because its flag starts as \<open>True\<close> (respectively 1): the body never
  runs. Accordingly a run in which every launched worker finishes contains no timed wait
  (and, in the earlier driver, prints no message), performs a blocking \<open>Get\<close> on every
  future and assembles the results of all chunks.
\<close>

theorem polling_loop_never_runs:
  "poll_new n True w tr = Some (w, tr) \<and> poll_old n 1 w tr = Some (w, tr) \<and>
   (cipherType settings \<noteq> Playfair \<longrightarrow> submit_new settings inputText = Inr (cs, tr0) \<longrightarrow>
      all_finish (length cs) sched \<longrightarrow>
      (\<exists>trace. dispatch_new f settings inputText sched =
           Some (Inr (concat (map (\<lambda>chunk. f chunk (cipherMode settings)) cs), trace)) \<and>
         (\<forall>i. WaitFor i \<notin> set trace) \<and> (\<forall>i<length cs. Get i \<in> set trace))) \<and>
   (uniform_chunks threadNum inputText = Inr cs' \<longrightarrow> all_finish (length cs') sched \<longrightarrow>
      (\<exists>trace. dispatch_old f settings inputText sched =
           Some (Inr (concat (map (\<lambda>chunk. f chunk (cipherMode settings)) cs'), trace)) \<and>
         (\<forall>i. WaitFor i \<notin> set trace) \<and> (\<forall>s. Stdout s \<notin> set trace) \<and>
         (\<forall>i<length cs'. Get i \<in> set trace)))"
proof (intro conjI impI)
  show "poll_new n True w tr = Some (w, tr)" by (rule poll_new_skipped)
  show "poll_old n 1 w tr = Some (w, tr)" by (rule poll_old_skipped)
next
  assume a: "cipherType settings \<noteq> Playfair" "submit_new settings inputText = Inr (cs, tr0)"
    "all_finish (length cs) sched"
  let ?trace = "tr0 @ map Get [0..<length cs]"
  have ev: "\<forall>e \<in> set tr0. (\<exists>s. e = Stdout s) \<or> (\<exists>c. e = Async c)"
    using a(2) by (rule submit_new_events)
  have "\<forall>i. WaitFor i \<notin> set ?trace" using ev by auto
  moreover have "\<forall>i<length cs. Get i \<in> set ?trace" by simp
  ultimately show "\<exists>trace. dispatch_new f settings inputText sched =
           Some (Inr (concat (map (\<lambda>chunk. f chunk (cipherMode settings)) cs), trace)) \<and>
         (\<forall>i. WaitFor i \<notin> set trace) \<and> (\<forall>i<length cs. Get i \<in> set trace)"
    using dispatch_new_run[OF a, of f] by blast
next
  assume b: "uniform_chunks threadNum inputText = Inr cs'" "all_finish (length cs') sched"
  let ?trace = "map Async cs' @ map Get [0..<length cs']"
  have "\<forall>i. WaitFor i \<notin> set ?trace" by auto
  moreover have "\<forall>s. Stdout s \<notin> set ?trace" by auto
  moreover have "\<forall>i<length cs'. Get i \<in> set ?trace" by simp
  ultimately show "\<exists>trace. dispatch_old f settings inputText sched =
           Some (Inr (concat (map (\<lambda>chunk. f chunk (cipherMode settings)) cs'), trace)) \<and>
         (\<forall>i. WaitFor i \<notin> set trace) \<and> (\<forall>s. Stdout s \<notin> set trace) \<and>
         (\<forall>i<length cs'. Get i \<in> set trace)"
    using dispatch_old_run[OF b, of f settings] by blast
qed

theorem polling_loop_never_runs_witness:
  "cipherType \<lparr>outputFile = [], cipherKey = ''3'', cipherMode = Encrypt, cipherType = Caesar\<rparr> \<noteq> Playfair \<and>
   submit_new \<lparr>outputFile = [], cipherKey = ''3'', cipherMode = Encrypt, cipherType = Caesar\<rparr> ''HELLOWORLDABC'' =
     Inr ([''HE'', ''L'', ''L'', ''O'', ''W'', ''O'', ''R'', ''L'', ''D'', ''A'', ''B'', ''C''], map Async [''HE'', ''L'', ''L'', ''O'', ''W'', ''O'', ''R'', ''L'', ''D'', ''A'', ''B'', ''C'']) \<and>
   uniform_chunks threadNum ''HELLOWORLDABC'' = Inr [''HE'', ''L'', ''L'', ''O'', ''W'', ''O'', ''R'', ''L'', ''D'', ''A'', ''B'', ''C''] \<and>
   all_finish (length [''HE'', ''L'', ''L'', ''O'', ''W'', ''O'', ''R'', ''L'', ''D'', ''A'', ''B'', ''C'']) [11, 10, 9, 8, 7, 6, 5, 4, 3, 2, 1, 0] \<and>
   (\<exists>trace. dispatch_new (applyCipher (CaesarCipher 3)) \<lparr>outputFile = [], cipherKey = ''3'', cipherMode = Encrypt, cipherType = Caesar\<rparr> ''HELLOWORLDABC'' [11, 10, 9, 8, 7, 6, 5, 4, 3, 2, 1, 0] =
        Some (Inr (concat (map (\<lambda>chunk. (applyCipher (CaesarCipher 3)) chunk (cipherMode \<lparr>outputFile = [], cipherKey = ''3'', cipherMode = Encrypt, cipherType = Caesar\<rparr>)) [''HE'', ''L'', ''L'', ''O'', ''W'', ''O'', ''R'', ''L'', ''D'', ''A'', ''B'', ''C'']), trace)) \<and>
      (\<forall>i. WaitFor i \<notin> set trace) \<and>
      (\<forall>i<length [''HE'', ''L'', ''L'', ''O'', ''W'', ''O'', ''R'', ''L'', ''D'', ''A'', ''B'', ''C'']. Get i \<in> set trace)) \<and>
   (\<exists>trace. dispatch_old (applyCipher (CaesarCipher 3)) \<lparr>outputFile = [], cipherKey = ''3'', cipherMode = Encrypt, cipherType = Caesar\<rparr> ''HELLOWORLDABC'' [11, 10, 9, 8, 7, 6, 5, 4, 3, 2, 1, 0] =
        Some (Inr (concat (map (\<lambda>chunk. (applyCipher (CaesarCipher 3)) chunk (cipherMode \<lparr>outputFile = [], cipherKey = ''3'', cipherMode = Encrypt, cipherType = Caesar\<rparr>)) [''HE'', ''L'', ''L'', ''O'', ''W'', ''O'', ''R'', ''L'', ''D'', ''A'', ''B'', ''C'']), trace)) \<and>
      (\<forall>i. WaitFor i \<notin> set trace) \<and> (\<forall>s. Stdout s \<notin> set trace) \<and>
      (\<forall>i<length [''HE'', ''L'', ''L'', ''O'', ''W'', ''O'', ''R'', ''L'', ''D'', ''A'', ''B'', ''C'']. Get i \<in> set trace))"
proof -
  have h1: "cipherType \<lparr>outputFile = [], cipherKey = ''3'', cipherMode = Encrypt, cipherType = Caesar\<rparr> \<noteq> Playfair" by simp
  have h2: "submit_new \<lparr>outputFile = [], cipherKey = ''3'', cipherMode = Encrypt, cipherType = Caesar\<rparr> ''HELLOWORLDABC'' =
     Inr ([''HE'', ''L'', ''L'', ''O'', ''W'', ''O'', ''R'', ''L'', ''D'', ''A'', ''B'', ''C''], map Async [''HE'', ''L'', ''L'', ''O'', ''W'', ''O'', ''R'', ''L'', ''D'', ''A'', ''B'', ''C''])"
    by code_simp
  have h3: "all_finish (length [''HE'', ''L'', ''L'', ''O'', ''W'', ''O'', ''R'', ''L'', ''D'', ''A'', ''B'', ''C'']) [11, 10, 9, 8, 7, 6, 5, 4, 3, 2, 1, 0]"
    by code_simp
  have h4: "uniform_chunks threadNum ''HELLOWORLDABC'' = Inr [''HE'', ''L'', ''L'', ''O'', ''W'', ''O'', ''R'', ''L'', ''D'', ''A'', ''B'', ''C'']"
    by code_simp
  note r = polling_loop_never_runs[where settings = "\<lparr>outputFile = [], cipherKey = ''3'', cipherMode = Encrypt, cipherType = Caesar\<rparr>" and inputText = "''HELLOWORLDABC''"
        and cs = "[''HE'', ''L'', ''L'', ''O'', ''W'', ''O'', ''R'', ''L'', ''D'', ''A'', ''B'', ''C'']" and ?tr0.0 = "map Async [''HE'', ''L'', ''L'', ''O'', ''W'', ''O'', ''R'', ''L'', ''D'', ''A'', ''B'', ''C'']" and sched = "[11, 10, 9, 8, 7, 6, 5, 4, 3, 2, 1, 0]"
        and f = "(applyCipher (CaesarCipher 3))" and cs' = "[''HE'', ''L'', ''L'', ''O'', ''W'', ''O'', ''R'', ''L'', ''D'', ''A'', ''B'', ''C'']"]
  have c: "\<exists>trace. dispatch_new (applyCipher (CaesarCipher 3)) \<lparr>outputFile = [], cipherKey = ''3'', cipherMode = Encrypt, cipherType = Caesar\<rparr> ''HELLOWORLDABC'' [11, 10, 9, 8, 7, 6, 5, 4, 3, 2, 1, 0] =
        Some (Inr (concat (map (\<lambda>chunk. (applyCipher (CaesarCipher 3)) chunk (cipherMode \<lparr>outputFile = [], cipherKey = ''3'', cipherMode = Encrypt, cipherType = Caesar\<rparr>)) [''HE'', ''L'', ''L'', ''O'', ''W'', ''O'', ''R'', ''L'', ''D'', ''A'', ''B'', ''C'']), trace)) \<and>
      (\<forall>i. WaitFor i \<notin> set trace) \<and>
      (\<forall>i<length [''HE'', ''L'', ''L'', ''O'', ''W'', ''O'', ''R'', ''L'', ''D'', ''A'', ''B'', ''C'']. Get i \<in> set trace)"
    using r h1 h2 h3 by blast
  have d: "\<exists>trace. dispatch_old (applyCipher (CaesarCipher 3)) \<lparr>outputFile = [], cipherKey = ''3'', cipherMode = Encrypt, cipherType = Caesar\<rparr> ''HELLOWORLDABC'' [11, 10, 9, 8, 7, 6, 5, 4, 3, 2, 1, 0] =
        Some (Inr (concat (map (\<lambda>chunk. (applyCipher (CaesarCipher 3)) chunk (cipherMode \<lparr>outputFile = [], cipherKey = ''3'', cipherMode = Encrypt, cipherType = Caesar\<rparr>)) [''HE'', ''L'', ''L'', ''O'', ''W'', ''O'', ''R'', ''L'', ''D'', ''A'', ''B'', ''C'']), trace)) \<and>
      (\<forall>i. WaitFor i \<notin> set trace) \<and> (\<forall>s. Stdout s \<notin> set trace) \<and>
      (\<forall>i<length [''HE'', ''L'', ''L'', ''O'', ''W'', ''O'', ''R'', ''L'', ''D'', ''A'', ''B'', ''C'']. Get i \<in> set trace)"
    using r h4 h3 by blast
  show ?thesis using h1 h2 h3 h4 c d by blast
qed

section \<open>Keys, round trips and the scenarios of the unit tests\<close>

text \<open>
  C5. \<^verbatim>\<open>cipherFactory\<close> fails with \<open>InvalidKey\<close> exactly on a malformed key and returns
  either that failure or a cipher, never both. A shift key is rejected exactly when it is
  empty or has a character that is not a decimal digit (so the empty key, \<^verbatim>\<open>-10\<close>,
  \<^verbatim>\<open>agfag\<close> and \<^verbatim>\<open>;[]'.\<close> are rejected). It is accepted, with the cipher \<open>c\<close>, exactly
  when it is the decimal representation of a natural number \<open>n\<close>, possibly after leading
  zeros, and \<open>c\<close> is the Caesar cipher with the shift \<open>n mod 26\<close> (so \<^verbatim>\<open>10\<close> gives 10, and
  \<^verbatim>\<open>36\<close> is accepted and gives 10 as well).
  A keyword for the Vigenere or the Playfair cipher is rejected exactly when it is empty or
  has a character that is not a letter (so \<^verbatim>\<open>1340\<close>, \<^verbatim>\<open>-10\<close> and \<^verbatim>\<open>;[]'.\<close> are rejected),
  and \<^verbatim>\<open>hello\<close> is accepted for both.
\<close>

theorem cipherFactory_key_validation:
  "(cipherFactory Caesar k = Inl InvalidKey \<longleftrightarrow> k = [] \<or> (\<exists>c \<in> set k. \<not> is_digit c)) \<and>
   (cipherFactory Caesar k = Inr c \<longleftrightarrow>
      (\<exists>z n. k = replicate z (CHR ''0'') @ to_string n \<and> c = CaesarCipher (n mod 26))) \<and>
   cipherFactory Caesar [] = Inl InvalidKey \<and>
   (k \<noteq> [] \<longrightarrow> (\<forall>c \<in> set k. is_digit c) \<longrightarrow>
      cipherFactory Caesar k = Inr (CaesarCipher (parse_decimal k mod 26))) \<and>
   cipherFactory Caesar (to_string n) = Inr (CaesarCipher (n mod 26)) \<and>
   (cipherFactory Vigenere k = Inl InvalidKey \<longleftrightarrow> k = [] \<or> (\<exists>c \<in> set k. \<not> is_alpha c)) \<and>
   (cipherFactory Playfair k = Inl InvalidKey \<longleftrightarrow> k = [] \<or> (\<exists>c \<in> set k. \<not> is_alpha c)) \<and>
   (cipherFactory kind k = Inl InvalidKey \<or> (\<exists>c. cipherFactory kind k = Inr c)) \<and>
   cipherFactory Caesar ''-10'' = Inl InvalidKey \<and>
   cipherFactory Caesar ''agfag'' = Inl InvalidKey \<and>
   cipherFactory Caesar ('';[]'' @ [CHR 0x27] @ ''.'') = Inl InvalidKey \<and>
   cipherFactory Caesar ''10'' = Inr (CaesarCipher 10) \<and>
   cipherFactory Caesar ''36'' = Inr (CaesarCipher 10) \<and>
   cipherFactory Vigenere ''1340'' = Inl InvalidKey \<and>
   cipherFactory Vigenere ''-10'' = Inl InvalidKey \<and>
   cipherFactory Vigenere ('';[]'' @ [CHR 0x27] @ ''.'') = Inl InvalidKey \<and>
   cipherFactory Vigenere [] = Inl InvalidKey \<and>
   cipherFactory Vigenere ''hello'' = Inr (VigenereCipher ''HELLO'') \<and>
   cipherFactory Playfair ''hello'' = Inr (PlayfairCipher ''HELLO'')"
proof -
  have a: "cipherFactory Caesar k = Inl InvalidKey \<longleftrightarrow> k = [] \<or> (\<exists>c \<in> set k. \<not> is_digit c)"
    by (auto simp: cipherFactory_def list_all_iff)
  have a2: "cipherFactory Caesar k = Inr c \<longleftrightarrow>
      (\<exists>z n. k = replicate z (CHR ''0'') @ to_string n \<and> c = CaesarCipher (n mod 26))"
    by (rule caesar_key_represents)
  have a3: "cipherFactory Caesar [] = Inl InvalidKey"
    by (simp add: cipherFactory_def)
  have b: "k \<noteq> [] \<longrightarrow> (\<forall>c \<in> set k. is_digit c) \<longrightarrow>
      cipherFactory Caesar k = Inr (CaesarCipher (parse_decimal k mod 26))"
    by (simp add: cipherFactory_def list_all_iff)
  have c: "cipherFactory Caesar (to_string n) = Inr (CaesarCipher (n mod 26))"
    using to_string_digits[of n] by (simp add: cipherFactory_def)
  have d: "cipherFactory Vigenere k = Inl InvalidKey \<longleftrightarrow> k = [] \<or> (\<exists>c \<in> set k. \<not> is_alpha c)"
    by (auto simp: cipherFactory_def list_all_iff)
  have e: "cipherFactory Playfair k = Inl InvalidKey \<longleftrightarrow> k = [] \<or> (\<exists>c \<in> set k. \<not> is_alpha c)"
    by (auto simp: cipherFactory_def list_all_iff)
  have f: "cipherFactory kind k = Inl InvalidKey \<or> (\<exists>c. cipherFactory kind k = Inr c)"
    by (cases kind) (simp_all add: cipherFactory_def)
  have g: "cipherFactory Caesar ''-10'' = Inl InvalidKey \<and>
   cipherFactory Caesar ''agfag'' = Inl InvalidKey \<and>
   cipherFactory Caesar ('';[]'' @ [CHR 0x27] @ ''.'') = Inl InvalidKey \<and>
   cipherFactory Caesar ''10'' = Inr (CaesarCipher 10) \<and>
   cipherFactory Caesar ''36'' = Inr (CaesarCipher 10) \<and>
   cipherFactory Vigenere ''1340'' = Inl InvalidKey \<and>
   cipherFactory Vigenere ''-10'' = Inl InvalidKey \<and>
   cipherFactory Vigenere ('';[]'' @ [CHR 0x27] @ ''.'') = Inl InvalidKey \<and>
   cipherFactory Vigenere [] = Inl InvalidKey \<and>
   cipherFactory Vigenere ''hello'' = Inr (VigenereCipher ''HELLO'') \<and>
   cipherFactory Playfair ''hello'' = Inr (PlayfairCipher ''HELLO'')"
    by code_simp
  show ?thesis using a a2 a3 b c d e f g by blast
qed

theorem cipherFactory_key_validation_witness:
  "''36'' \<noteq> [] \<and> list_all is_digit ''36'' \<and>
   cipherFactory Caesar ''36'' = Inr (CaesarCipher (parse_decimal ''36'' mod 26)) \<and>
   parse_decimal ''36'' mod 26 = 10"
proof -
  have h1: "''36'' \<noteq> []" by simp
  have h2: "list_all is_digit ''36''" by code_simp
  have c: "cipherFactory Caesar ''36'' = Inr (CaesarCipher (parse_decimal ''36'' mod 26))"
    using cipherFactory_key_validation[of "''36''"] h1 h2 unfolding list_all_iff by blast
  have v: "parse_decimal ''36'' mod 26 = 10" by code_simp
  show ?thesis using h1 h2 c v by blast
qed

text \<open>
  C6. The three scenarios of the unit test \<^verbatim>\<open>Cipher encryption/decryption\<close>: for each
  cipher \<^verbatim>\<open>cipherFactory\<close> returns a cipher, and \<^verbatim>\<open>testCipher\<close> holds for the plain text
  and the expected ciphertext in mode \<open>Encrypt\<close>, and for the ciphertext and the expected
  decrypted text in mode \<open>Decrypt\<close>.
\<close>

theorem end_to_end_scenarios:
  "cipherFactory Caesar ''10'' = Inr (CaesarCipher 10) \<and>
   testCipher (CaesarCipher 10) Encrypt ''HELLOWORLD'' ''ROVVYGYBVN'' \<and>
   testCipher (CaesarCipher 10) Decrypt ''ROVVYGYBVN'' ''HELLOWORLD'' \<and>
   cipherFactory Playfair ''hello'' = Inr (PlayfairCipher ''HELLO'') \<and>
   testCipher (PlayfairCipher ''HELLO'') Encrypt
     ''BOBISSOMESORTOFJUNIORCOMPLEXXENOPHONEONEZEROTHING''
     ''FHIQXLTLKLTLSUFNPQPKETFENIOLVSWLTFIAFTLAKOWATEQOKPPA'' \<and>
   testCipher (PlayfairCipher ''HELLO'') Decrypt
     ''FHIQXLTLKLTLSUFNPQPKETFENIOLVSWLTFIAFTLAKOWATEQOKPPA''
     ''BOBISXSOMESORTOFIUNIORCOMPLEXQXENOPHONEONEZEROTHINGZ'' \<and>
   cipherFactory Vigenere ''hello'' = Inr (VigenereCipher ''HELLO'') \<and>
   testCipher (VigenereCipher ''HELLO'') Encrypt
     ''THISISQUITEALONGMESSAGESOTHEKEYWILLNEEDTOREPEATAFEWTIMES''
     ''ALTDWZUFTHLEWZBNQPDGHKPDCALPVSFATWZUIPOHVVPASHXLQSDXTXSZ'' \<and>
   testCipher (VigenereCipher ''HELLO'') Decrypt
     ''ALTDWZUFTHLEWZBNQPDGHKPDCALPVSFATWZUIPOHVVPASHXLQSDXTXSZ''
     ''THISISQUITEALONGMESSAGESOTHEKEYWILLNEEDTOREPEATAFEWTIMES''"
  by code_simp

lemma playfair_filler_in_spec_prose:
  "playfair_apply (CHR ''Z'') ''HELLO'' ''BOBISSOMESORTOFJUNIORCOMPLEXXENOPHONEONEZEROTHING'' Encrypt =
     ''FHIQXLTLKLTLSUFNPQPKETFENIOLYVWLTFIAFTLAKOWATEQOKPPA'' \<and>
   playfair_prepare (CHR ''Z'') ''BOBISSOMESORTOFJUNIORCOMPLEXXENOPHONEONEZEROTHING'' =
     ''BOBISXSOMESORTOFIUNIORCOMPLEXZXENOPHONEONEZEROTHINGZ''"
  by code_simp




end
